theory Spec2Isabelle
  imports Complex_Main "HOL-Library.Sublist"
begin

section \<open>Python values and errors\<close>

text \<open>
  The repository holds three implementations of the annotator: the class
  \<open>PDFErrorAnnotator\<close> of \<open>pdf_error_annotator.py\<close> (run by \<open>main.py\<close>), and the two
  scripts \<open>Simple.py\<close> and \<open>Annotation.py\<close>. Each function below is a transcription of
  one of them; its comment names the file. Exceptions are values: a function that can
  raise returns \<open>py_error + 'a\<close>, with \<open>Inl\<close> the exception.

  Coordinates are Python floats; they are modelled as reals, on which the comparisons
  of \<open>is_within\<close> are the comparisons of the floats. Float arithmetic rounds: the
  subtraction and the addition of the coordinate conversion are parameters of the
  model (\<open>fsub\<close>, \<open>fadd\<close>), so that nothing is assumed of how they round. The one
  other difference taken, in the grouping of boxes into lines, is taken exactly; no
  statement below depends on which boxes share a line. Strings are lists of
  characters, as Python's \<open>str\<close> is a sequence of code points.

  PyMuPDF is not part of the repository. Its calls are recorded as requests (a
  rectangle with its label) and not executed; that the library refuses a rectangle
  is modelled in \<open>highlight_paragraph\<close>, where the fallback annotation depends on it.
\<close>

datatype py_error = TypeError | IndexError | KeyError | ValueError

text \<open>The values a cell of the paragraph table, or \<open>ast.literal_eval\<close>, can produce.\<close>

datatype pyval = PNone | PInt int | PStr string | PList "pyval list"

text \<open>Python truthiness, \<open>bool(v)\<close>.\<close>

fun truthy :: "pyval \<Rightarrow> bool" where
  "truthy PNone = False"
| "truthy (PInt n) = (n \<noteq> 0)"
| "truthy (PStr s) = (s \<noteq> [])"
| "truthy (PList xs) = (xs \<noteq> [])"

section \<open>Geometry: \<open>is_within\<close>\<close>

text \<open>
  A bounding box is a Python list of numbers; \<open>xs[i]\<close> raises \<open>IndexError\<close> out of
  range.
\<close>

type_synonym box = "real list"

definition item :: "box \<Rightarrow> nat \<Rightarrow> py_error + real" where
  "item xs i = (if i < length xs then Inr (xs ! i) else Inl IndexError)"

text \<open>
  What a \<open>Clipbounds\<close> cell holds after \<open>safe_literal_eval\<close>: a list, or \<open>None\<close>
  (\<open>load_data\<close> writes \<open>None\<close> for a falsy paragraph box), or the float NaN of an
  empty cell of the sheet. Subscripting \<open>None\<close> or a float raises \<open>TypeError\<close>.
\<close>

datatype box_val = BNone | BNaN | BList box

definition val_item :: "box_val \<Rightarrow> nat \<Rightarrow> py_error + real" where
  "val_item v i = (case v of BList xs \<Rightarrow> item xs i | _ \<Rightarrow> Inl TypeError)"

text \<open>\<open>b[i] rel c[j]\<close>: the left subscript is evaluated first.\<close>

definition cmp_items ::
  "(real \<Rightarrow> real \<Rightarrow> bool) \<Rightarrow> box_val \<Rightarrow> nat \<Rightarrow> box_val \<Rightarrow> nat \<Rightarrow> py_error + bool" where
  "cmp_items rel b i c j =
     (case val_item b i of
        Inl e \<Rightarrow> Inl e
      | Inr x \<Rightarrow> (case val_item c j of Inl e \<Rightarrow> Inl e | Inr y \<Rightarrow> Inr (rel x y)))"

text \<open>Python's short-circuit \<open>p and q\<close> on booleans: \<open>q\<close> is not evaluated when \<open>p\<close> is false.\<close>

definition and_then :: "py_error + bool \<Rightarrow> py_error + bool \<Rightarrow> py_error + bool" where
  "and_then p q = (case p of Inl e \<Rightarrow> Inl e | Inr t \<Rightarrow> (if t then q else Inr False))"

text \<open>
  The four comparisons shared by every copy of \<open>is_within\<close>, evaluated left to right,
  so that the first operand that cannot be subscripted raises:
  \<^verbatim>\<open>bbox[0] >= container[0] and bbox[2] <= container[2] and
  bbox[1] >= container[1] and bbox[3] <= container[3]\<close>
\<close>

definition within_body :: "box_val \<Rightarrow> box_val \<Rightarrow> py_error + bool" where
  "within_body b c =
     and_then (cmp_items (\<lambda>x y. x \<ge> y) b 0 c 0)
    (and_then (cmp_items (\<lambda>x y. x \<le> y) b 2 c 2)
    (and_then (cmp_items (\<lambda>x y. x \<ge> y) b 1 c 1)
              (cmp_items (\<lambda>x y. x \<le> y) b 3 c 3)))"

text \<open>
  \<open>not bbox\<close>: true for \<open>None\<close> and for the empty list; false for NaN, which is a
  non-zero float.
\<close>

definition not_box :: "box_val \<Rightarrow> bool" where
  "not_box b = (case b of BNone \<Rightarrow> True | BNaN \<Rightarrow> False | BList xs \<Rightarrow> xs = [])"

text \<open>\<open>PDFErrorAnnotator.is_within\<close> (pdf_error_annotator.py, lines 73-90).\<close>

definition is_within :: "box_val \<Rightarrow> box_val \<Rightarrow> py_error + bool" where
  "is_within bbox container =
     (if not_box bbox \<or> not_box container then Inr False
      else within_body bbox container)"

text \<open>
  The inline \<open>is_within\<close> of Simple.py (lines 102-106) and Annotation.py (lines 88-92):
  the four comparisons and no test for an absent box.
\<close>

definition is_within_script :: "box_val \<Rightarrow> box_val \<Rightarrow> py_error + bool" where
  "is_within_script bbox container = within_body bbox container"

section \<open>Phrase parser\<close>

text \<open>
  \<open>PDFErrorAnnotator.parse_error_phrases\<close> (pdf_error_annotator.py, lines 92-112).
  \<open>ast.literal_eval\<close> belongs to the Python library, not to this repository: it is the
  parameter \<open>lit\<close>, with \<open>None\<close> for a raised exception (which the bare \<open>except\<close>
  catches). The value returned is whatever the literal denotes, not always a list.
\<close>

definition parse_error_phrases :: "(string \<Rightarrow> pyval option) \<Rightarrow> pyval \<Rightarrow> pyval" where
  "parse_error_phrases lit error_phrases =
     (case error_phrases of
        PStr s \<Rightarrow> (case lit s of Some v \<Rightarrow> v | None \<Rightarrow> PList [PStr s])
      | PList xs \<Rightarrow> PList xs
      | _ \<Rightarrow> PList [])"

section \<open>Strings\<close>

text \<open>\<open>" ".join(words)\<close>.\<close>

fun join_space :: "string list \<Rightarrow> string" where
  "join_space [] = []"
| "join_space [w] = w"
| "join_space (w # v # ws) = w @ CHR '' '' # join_space (v # ws)"

text \<open>
  \<open>s.find(p)\<close>: the index of the leftmost occurrence of \<open>p\<close> in \<open>s\<close>, \<open>None\<close> for
  Python's \<open>-1\<close>. \<open>p in s\<close> is \<open>find_sub p s \<noteq> None\<close>. In Annotation.py the
  occurrences come from \<open>re.finditer(re.escape(error), s)\<close>, of which only the
  emptiness and the first start are used: for an escaped literal that is the same
  leftmost occurrence.
\<close>

fun find_sub :: "string \<Rightarrow> string \<Rightarrow> nat option" where
  "find_sub p [] = (if p = [] then Some 0 else None)"
| "find_sub p (c # s) =
     (if prefix p (c # s) then Some 0 else map_option Suc (find_sub p s))"

text \<open>
  The characters \<open>str.split()\<close> splits at, among the code points below 256:
  tab to carriage return, the separators 28 to 31, the space, NEL and the
  no-break space.
\<close>

definition is_ws :: "char \<Rightarrow> bool" where
  "is_ws c = (let n = (of_char c :: nat)
              in (9 \<le> n \<and> n \<le> 13) \<or> (28 \<le> n \<and> n \<le> 32) \<or> n = 133 \<or> n = 160)"

text \<open>\<open>s.split()\<close>: maximal runs of non-whitespace characters.\<close>

fun split_acc :: "string \<Rightarrow> string \<Rightarrow> string list" where
  "split_acc cur [] = (if cur = [] then [] else [cur])"
| "split_acc cur (c # cs) =
     (if is_ws c then (if cur = [] then split_acc [] cs else cur # split_acc [] cs)
      else split_acc (cur @ [c]) cs)"

definition py_split :: "string \<Rightarrow> string list" where
  "py_split s = split_acc [] s"

text \<open>\<open>s.replace(" ", "")\<close>: only the space character is removed.\<close>

definition strip_spaces :: "string \<Rightarrow> string" where
  "strip_spaces s = filter (\<lambda>c. c \<noteq> CHR '' '') s"

section \<open>The word window\<close>

text \<open>
  A cell of the columns \<open>Spans\<close> and \<open>Next Word Span\<close> after \<open>safe_literal_eval\<close>: an
  empty cell is the float NaN, which Python's \<open>!=\<close> finds different from everything,
  itself included.
\<close>

datatype 's span_val = NaN | Span 's

fun span_ne :: "'s span_val \<Rightarrow> 's span_val \<Rightarrow> bool" where
  "span_ne (Span a) (Span b) = (a \<noteq> b)"
| "span_ne _ _ = True"

text \<open>
  A row of \<open>matching_rows\<close>: the words of one page inside the paragraph box, indexed
  \<open>0 .. n-1\<close> after \<open>reset_index\<close>. \<open>content\<close> is the cell after \<open>str(...)\<close>.
\<close>

record 's word_row =
  content :: string
  clipbounds :: box
  spans :: "'s span_val"
  next_word_span :: "'s span_val"

definition all_words_string :: "'s word_row list \<Rightarrow> string" where
  "all_words_string rows = join_space (map content rows)"

section \<open>Line grouping and highlight rectangles\<close>

definition then_do :: "py_error + 'a \<Rightarrow> ('a \<Rightarrow> py_error + 'b) \<Rightarrow> py_error + 'b" where
  "then_do m f = (case m of Inl e \<Rightarrow> Inl e | Inr x \<Rightarrow> f x)"

fun map_err :: "('a \<Rightarrow> py_error + 'b) \<Rightarrow> 'a list \<Rightarrow> py_error + 'b list" where
  "map_err f [] = Inr []"
| "map_err f (x # xs) =
     (case f x of
        Inl e \<Rightarrow> Inl e
      | Inr y \<Rightarrow> (case map_err f xs of Inl e \<Rightarrow> Inl e | Inr ys \<Rightarrow> Inr (y # ys)))"

text \<open>
  \<open>matching_rows.loc[match_word_indices, "Clipbounds"].tolist()\<close>: a label that is not
  a row of the frame raises \<open>KeyError\<close>.
\<close>

definition loc_boxes :: "'s word_row list \<Rightarrow> nat list \<Rightarrow> py_error + box list" where
  "loc_boxes rows idxs =
     map_err (\<lambda>i. if i < length rows then Inr (clipbounds (rows ! i)) else Inl KeyError) idxs"

text \<open>\<open>phrase_bboxes.sort(key=lambda b: b[1])\<close>: a stable sort on the keys.\<close>

definition sort_by_y :: "box list \<Rightarrow> py_error + box list" where
  "sort_by_y bs =
     then_do (map_err (\<lambda>b. item b 1) bs)
       (\<lambda>keys. Inr (map snd (sort_key fst (zip keys bs))))"

text \<open>
  The loop \<open>for k in range(1, len(phrase_bboxes))\<close>: \<open>prev\<close> is \<open>phrase_bboxes[k-1]\<close>,
  \<open>cur\<close> the last group of \<open>line_groups\<close>.
\<close>

fun group_lines :: "real \<Rightarrow> box \<Rightarrow> box list \<Rightarrow> box list \<Rightarrow> py_error + box list list" where
  "group_lines tol prev cur [] = Inr [cur]"
| "group_lines tol prev cur (b # bs) =
     (case item b 1 of
        Inl e \<Rightarrow> Inl e
      | Inr y \<Rightarrow>
          (case item prev 1 of
             Inl e \<Rightarrow> Inl e
           | Inr y0 \<Rightarrow>
               (if \<bar>y - y0\<bar> \<le> tol then group_lines tol b (cur @ [b]) bs
                else (case group_lines tol b [b] bs of
                        Inl e \<Rightarrow> Inl e
                      | Inr gs \<Rightarrow> Inr (cur # gs)))))"

text \<open>\<open>min(...)\<close> and \<open>max(...)\<close> raise \<open>ValueError\<close> on an empty sequence.\<close>

definition py_min :: "real list \<Rightarrow> py_error + real" where
  "py_min xs = (case xs of [] \<Rightarrow> Inl ValueError | x # ys \<Rightarrow> Inr (fold min ys x))"

definition py_max :: "real list \<Rightarrow> py_error + real" where
  "py_max xs = (case xs of [] \<Rightarrow> Inl ValueError | x # ys \<Rightarrow> Inr (fold max ys x))"

definition line_bbox :: "box list \<Rightarrow> py_error + box" where
  "line_bbox line =
     then_do (then_do (map_err (\<lambda>b. item b 0) line) py_min) (\<lambda>x0.
     then_do (then_do (map_err (\<lambda>b. item b 1) line) py_min) (\<lambda>y0.
     then_do (then_do (map_err (\<lambda>b. item b 2) line) py_max) (\<lambda>x1.
     then_do (then_do (map_err (\<lambda>b. item b 3) line) py_max) (\<lambda>y1.
       Inr [x0, y0, x1, y1]))))"

text \<open>
  From the boxes of the matched words to one rectangle per line: sort, take
  \<open>phrase_bboxes[0]\<close> as the first group (\<open>IndexError\<close> on an empty list), group, and
  take the union of each group. The same code stands in \<open>highlight_matched_words\<close>,
  once in Simple.py and twice in Annotation.py.
\<close>

definition line_rects :: "real \<Rightarrow> box list \<Rightarrow> py_error + box list" where
  "line_rects tol phrase_bboxes =
     then_do (sort_by_y phrase_bboxes) (\<lambda>sorted.
       case sorted of
         [] \<Rightarrow> Inl IndexError
       | b # bs \<Rightarrow> then_do (group_lines tol b [b] bs) (map_err line_bbox))"

section \<open>Annotation.py: the alignment pass of one paragraph\<close>

subsection \<open>Step 2: the word indices of a direct match\<close>

text \<open>
  Annotation.py, lines 119-135: the scan over \<open>enumerate(matching_rows["Content"])\<close>,
  with \<open>idx\<close> the word index and \<open>current_position\<close> the offset of the word in
  \<open>all_words_string\<close>; \<open>error_len\<close> is \<open>len(error)\<close>. The loop breaks once the next
  offset is past the end of the match.
\<close>

fun direct_scan :: "nat \<Rightarrow> nat \<Rightarrow> nat set \<Rightarrow> nat \<Rightarrow> nat \<Rightarrow> string list \<Rightarrow> nat list" where
  "direct_scan match_start error_len used_indices idx current_position [] = []"
| "direct_scan match_start error_len used_indices idx current_position (word # rest) =
     (let word_len = length word;
          here =
            (if current_position \<ge> match_start \<and> current_position < match_start + error_len
             then (if idx \<notin> used_indices then [idx] else [])
             else if current_position < match_start + error_len
                     \<and> current_position + word_len \<ge> match_start
             then (if idx \<notin> used_indices then [idx] else [])
             else []);
          next_position = current_position + word_len + 1
      in here @ (if next_position > match_start + error_len then []
                 else direct_scan match_start error_len used_indices (Suc idx) next_position rest))"

subsection \<open>Step 3: partial matching\<close>

text \<open>The dictionaries appended to \<open>all_matches\<close> (lines 197-204).\<close>

record candidate =
  sequence :: "nat list"
  match_text :: string
  is_full_match :: bool
  cand_length :: nat
  sub_error :: string
  original_error :: string

text \<open>
  The inner loop, lines 177-191: \<open>built\<close> is the content gathered so far, \<open>j\<close> the
  next word. It returns \<open>built\<close>, \<open>temp_sequence\<close> and \<open>j\<close> as they stand when the loop
  ends. It is entered with \<open>j = i + 1\<close>, so \<open>j - 1\<close> is a row.
\<close>

function extend_run ::
  "'s word_row list \<Rightarrow> string \<Rightarrow> string \<Rightarrow> nat list \<Rightarrow> nat \<Rightarrow> string \<times> nat list \<times> nat" where
  "extend_run rows clean_error built temp_sequence j =
     (if j < length rows \<and> prefix built clean_error then
        (if span_ne (next_word_span (rows ! (j - 1))) (spans (rows ! j))
         then (built, temp_sequence, j)
         else (let built' = built @ strip_spaces (content (rows ! j))
               in if prefix built' clean_error
                  then extend_run rows clean_error built' (temp_sequence @ [j]) (Suc j)
                  else (built', temp_sequence, j)))
      else (built, temp_sequence, j))"
  by pat_completeness auto
termination
  by (relation "measure (\<lambda>(rows, clean_error, built, temp_sequence, j). length rows - j)") auto

declare extend_run.simps [simp del]

text \<open>
  One turn of the loop \<open>while i < len(matching_rows)\<close> at an unused \<open>i\<close>, lines 173-207:
  the candidate recorded, if any, and the next value of \<open>i\<close>.
\<close>

definition candidate_at ::
  "'s word_row list \<Rightarrow> string \<Rightarrow> string \<Rightarrow> nat \<Rightarrow> candidate option \<times> nat" where
  "candidate_at rows sub_err error i =
     (let clean_error = strip_spaces sub_err;
          built = strip_spaces (content (rows ! i))
      in case extend_run rows clean_error built [i] (Suc i) of
           (built', temp_sequence, j) \<Rightarrow>
             (let text = concat (map (\<lambda>x. content (rows ! x)) temp_sequence);
                  match_clean = strip_spaces text
              in if prefix match_clean clean_error \<and> length match_clean > 0
                 then (Some \<lparr> sequence = temp_sequence, match_text = text,
                               is_full_match = (match_clean = clean_error),
                               cand_length = length match_clean,
                               sub_error = sub_err, original_error = error \<rparr>, j)
                 else (None, Suc i)))"

lemma extend_run_advances:
  "extend_run rows clean_error built temp_sequence j = (b, s, j') \<Longrightarrow> j \<le> j'"
proof (induction rows clean_error built temp_sequence j rule: extend_run.induct)
  case (1 rows clean_error built temp_sequence j)
  show ?case
  proof (cases "j < length rows \<and> prefix built clean_error
                \<and> \<not> span_ne (next_word_span (rows ! (j - 1))) (spans (rows ! j))
                \<and> prefix (built @ strip_spaces (content (rows ! j))) clean_error")
    case True
    then have "extend_run rows clean_error (built @ strip_spaces (content (rows ! j)))
                 (temp_sequence @ [j]) (Suc j) = (b, s, j')"
      using "1.prems" by (subst (asm) extend_run.simps) (simp add: Let_def)
    with True "1.IH" have "Suc j \<le> j'" by blast
    then show ?thesis by simp
  next
    case False
    then have "j' = j"
      using "1.prems" by (subst (asm) extend_run.simps) (auto simp: Let_def split: if_splits)
    then show ?thesis by simp
  qed
qed

lemma candidate_at_advances: "candidate_at rows sub_err error i = (c, j) \<Longrightarrow> i < j"
  by (auto simp: candidate_at_def Let_def split: prod.splits if_splits
           dest: extend_run_advances)

text \<open>The loop over \<open>i\<close>, lines 166-207, for one suffix \<open>sub_error\<close> of the phrase.\<close>

function scan_from ::
  "'s word_row list \<Rightarrow> nat set \<Rightarrow> string \<Rightarrow> string \<Rightarrow> nat \<Rightarrow> candidate list" where
  "scan_from rows used_indices sub_err error i =
     (if i < length rows then
        (if i \<in> used_indices then scan_from rows used_indices sub_err error (Suc i)
         else (case candidate_at rows sub_err error i of
                 (Some m, j) \<Rightarrow> m # scan_from rows used_indices sub_err error j
               | (None, j) \<Rightarrow> scan_from rows used_indices sub_err error j))
      else [])"
  by pat_completeness auto
termination
  by (relation "measure (\<lambda>(rows, used_indices, sub_err, error, i). length rows - i)")
     (auto dest!: candidate_at_advances [OF sym] intro: diff_less_mono2)

declare scan_from.simps [simp del]

text \<open>
  The suffixes tried, line 163-164:
  \<open>" ".join(error.split()[start:])\<close> for \<open>start\<close> in \<open>range(len(error.split()))\<close>.
\<close>

definition sub_errors :: "string \<Rightarrow> string list" where
  "sub_errors error =
     map (\<lambda>start. join_space (drop start (py_split error))) [0..<length (py_split error)]"

definition all_matches :: "'s word_row list \<Rightarrow> nat set \<Rightarrow> string \<Rightarrow> candidate list" where
  "all_matches rows used_indices error =
     concat (map (\<lambda>sub_err. scan_from rows used_indices sub_err error 0) (sub_errors error))"

text \<open>
  The choice of \<open>match_to_highlight\<close>, lines 209-223; \<open>None\<close> when \<open>all_matches\<close> is
  empty (the \<open>continue\<close> of line 217).
\<close>

definition select_match :: "candidate list \<Rightarrow> candidate option" where
  "select_match matches =
     (let full_matches = filter is_full_match matches
      in if full_matches \<noteq> [] then Some (hd full_matches)
         else (case map cand_length matches of
                 [] \<Rightarrow> None
               | l # ls \<Rightarrow> (let max_len = fold max ls l
                            in find (\<lambda>m. cand_length m = max_len) matches)))"

subsection \<open>One phrase, and the loop over the phrases\<close>

text \<open>
  The state of the pass: the set \<open>used_indices\<close> and the highlights placed on the page
  (rectangle and label; the PDF library is outside this repository, and its calls are
  recorded, not modelled).
\<close>

record ann_state =
  used :: "nat set"
  highlights :: "(box \<times> string) list"

text \<open>Which branch of the loop body a phrase left through; kept as a trace.\<close>

datatype outcome =
    Skipped
  | Direct "nat list"
  | Partial_accepted candidate
  | Partial_rejected candidate
  | No_candidate

definition place :: "real \<Rightarrow> 's word_row list \<Rightarrow> nat list \<Rightarrow> string \<Rightarrow> ann_state \<Rightarrow> py_error + ann_state" where
  "place tol rows idxs error st =
     then_do (then_do (loc_boxes rows idxs) (line_rects tol)) (\<lambda>rects.
       Inr (st \<lparr> highlights := highlights st @ map (\<lambda>r. (r, ''Error Phrase: '' @ error)) rects,
                 used := used st \<union> set idxs \<rparr>))"

text \<open>Lines 161-246, entered when the direct match gave nothing to highlight.\<close>

definition partial_phrase ::
  "real \<Rightarrow> 's word_row list \<Rightarrow> ann_state \<Rightarrow> string \<Rightarrow> py_error + outcome \<times> ann_state" where
  "partial_phrase tol rows st error =
     (case select_match (all_matches rows (used st) error) of
        None \<Rightarrow> Inr (No_candidate, st)
      | Some m \<Rightarrow>
          (if list_ex (\<lambda>idx. idx \<in> used st) (sequence m) then Inr (Partial_rejected m, st)
           else then_do (place tol rows (sequence m) (original_error m) st)
                  (\<lambda>st'. Inr (Partial_accepted m, st'))))"

text \<open>The body of \<open>for error in error_list\<close>, lines 108-246.\<close>

definition annotate_phrase ::
  "real \<Rightarrow> 's word_row list \<Rightarrow> ann_state \<Rightarrow> string \<Rightarrow> py_error + outcome \<times> ann_state" where
  "annotate_phrase tol rows st error =
     (if error = [] then Inr (Skipped, st)
      else (case find_sub error (all_words_string rows) of
              None \<Rightarrow> partial_phrase tol rows st error
            | Some match_start \<Rightarrow>
                (let match_word_indices =
                       direct_scan match_start (length error) (used st) 0 0 (map content rows)
                 in if match_word_indices \<noteq> []
                    then then_do (place tol rows match_word_indices error st)
                           (\<lambda>st'. Inr (Direct match_word_indices, st'))
                    else partial_phrase tol rows st error)))"

fun annotate_phrases ::
  "real \<Rightarrow> 's word_row list \<Rightarrow> ann_state \<Rightarrow> string list \<Rightarrow> py_error + outcome list \<times> ann_state" where
  "annotate_phrases tol rows st [] = Inr ([], st)"
| "annotate_phrases tol rows st (error # rest) =
     (case annotate_phrase tol rows st error of
        Inl e \<Rightarrow> Inl e
      | Inr (out, st') \<Rightarrow>
          (case annotate_phrases tol rows st' rest of
             Inl e \<Rightarrow> Inl e
           | Inr (outs, st'') \<Rightarrow> Inr (out # outs, st'')))"

text \<open>The pass starts from \<open>used_indices = set()\<close> (line 106).\<close>

definition annotate_paragraph ::
  "real \<Rightarrow> 's word_row list \<Rightarrow> string list \<Rightarrow> py_error + outcome list \<times> ann_state" where
  "annotate_paragraph tol rows error_list =
     annotate_phrases tol rows \<lparr> used = {}, highlights = [] \<rparr> error_list"

text \<open>The word indices a phrase was given, read off the trace.\<close>

fun accepted :: "outcome \<Rightarrow> nat list" where
  "accepted (Direct idxs) = idxs"
| "accepted (Partial_accepted m) = sequence m"
| "accepted _ = []"

section \<open>pdf_error_annotator.py: the class \<open>PDFErrorAnnotator\<close>\<close>

text \<open>
  \<open>process_word_matches\<close>, lines 268-280: the scan for the words of an exact match. It
  keeps no set of used indices. Simple.py, lines 132-144, is the same code.
\<close>

fun overlap_scan :: "nat \<Rightarrow> nat \<Rightarrow> nat \<Rightarrow> nat \<Rightarrow> string list \<Rightarrow> nat list" where
  "overlap_scan match_start match_end word_idx current_position [] = []"
| "overlap_scan match_start match_end word_idx current_position (word_str # rest) =
     (let word_start = current_position;
          word_end = word_start + length word_str
      in (if word_start \<le> match_end \<and> word_end \<ge> match_start then [word_idx] else [])
         @ overlap_scan match_start match_end (Suc word_idx) (word_end + 1) rest)"

text \<open>The word indices selected for one phrase found in the window.\<close>

definition match_word_indices :: "'s word_row list \<Rightarrow> string \<Rightarrow> nat list" where
  "match_word_indices rows error =
     (case find_sub error (all_words_string rows) of
        None \<Rightarrow> []
      | Some match_start \<Rightarrow>
          overlap_scan match_start (match_start + length error) 0 0 (map content rows))"

datatype colour = EXACT_MATCH_COLOR | POTENTIAL_ERROR_COLOR

text \<open>
  What a paragraph accumulates: the list \<open>annotation_bboxes\<close> and the highlight
  annotations asked of the page (rectangle, colour, label).
\<close>

record page_state =
  annotation_bboxes :: "box list"
  annots :: "(box \<times> colour \<times> string) list"

text \<open>\<open>highlight_matched_words\<close>, lines 292-332.\<close>

definition highlight_matched_words ::
  "real \<Rightarrow> 's word_row list \<Rightarrow> nat list \<Rightarrow> string \<Rightarrow> page_state \<Rightarrow> py_error + page_state" where
  "highlight_matched_words line_tolerance rows idxs error st =
     then_do (then_do (loc_boxes rows idxs) (line_rects line_tolerance)) (\<lambda>rects.
       Inr \<lparr> annotation_bboxes = annotation_bboxes st @ rects,
             annots = annots st
               @ map (\<lambda>r. (r, EXACT_MATCH_COLOR, ''Error Phrase: '' @ error)) rects \<rparr>)"

text \<open>\<open>sep.join(xs)\<close>.\<close>

fun join_sep :: "string \<Rightarrow> string list \<Rightarrow> string" where
  "join_sep sep [] = []"
| "join_sep sep [w] = w"
| "join_sep sep (w # v # ws) = w @ sep @ join_sep sep (v # ws)"

text \<open>
  Iterating a Python value: the elements of a list, the characters of a string;
  \<open>TypeError\<close> for a value that is not iterable.
\<close>

fun py_iter :: "pyval \<Rightarrow> py_error + pyval list" where
  "py_iter (PList xs) = Inr xs"
| "py_iter (PStr s) = Inr (map (\<lambda>c. PStr [c]) s)"
| "py_iter _ = Inl TypeError"

fun str_of :: "pyval \<Rightarrow> py_error + string" where
  "str_of (PStr s) = Inr s"
| "str_of _ = Inl TypeError"

text \<open>\<open>', '.join(error_list)\<close>: every element has to be a string.\<close>

definition join_errors :: "pyval \<Rightarrow> py_error + string" where
  "join_errors error_list =
     then_do (py_iter error_list) (\<lambda>xs.
     then_do (map_err str_of xs) (\<lambda>ss. Inr (join_sep '', '' ss)))"

text \<open>
  \<open>fitz.Rect(*para_bbox)\<close> followed by \<open>pdf_page.add_highlight_annot(para_rect)\<close>
  (lines 233-234): PyMuPDF takes four coordinates and refuses, with \<open>ValueError\<close>, a
  rectangle that is empty or inverted (\<open>x0 >= x1\<close> or \<open>y0 >= y1\<close>).
\<close>

definition rect_accepted :: "box \<Rightarrow> bool" where
  "rect_accepted r = (case r of [x0, y0, x1, y1] \<Rightarrow> x0 < x1 \<and> y0 < y1 | _ \<Rightarrow> False)"

text \<open>
  \<open>highlight_paragraph\<close>, lines 222-237. The box is appended first, then the
  annotation is asked of the page, and the label is built last; an exception of
  either leaves the method, and \<open>process_paragraph\<close> before its line 220 stores
  anything.
\<close>

definition highlight_paragraph :: "box \<Rightarrow> pyval \<Rightarrow> page_state \<Rightarrow> py_error + page_state" where
  "highlight_paragraph para_bbox error_list st =
     (if \<not> rect_accepted para_bbox then Inl ValueError
      else then_do (join_errors error_list) (\<lambda>label.
             Inr \<lparr> annotation_bboxes = annotation_bboxes st @ [para_bbox],
                   annots = annots st
                     @ [(para_bbox, POTENTIAL_ERROR_COLOR, ''Potential Errors: '' @ label)] \<rparr>))"

text \<open>
  The loop \<open>for error in error_list\<close> of \<open>process_word_matches\<close>, lines 255-286, with
  the flag \<open>matches_found\<close> threaded through.
\<close>

fun match_errors ::
  "real \<Rightarrow> 's word_row list \<Rightarrow> bool \<Rightarrow> page_state \<Rightarrow> pyval list \<Rightarrow> py_error + bool \<times> page_state" where
  "match_errors tol rows matches_found st [] = Inr (matches_found, st)"
| "match_errors tol rows matches_found st (e # rest) =
     (case e of
        PStr error \<Rightarrow>
          (if error = [] then match_errors tol rows matches_found st rest
           else (case find_sub error (all_words_string rows) of
                   None \<Rightarrow> match_errors tol rows matches_found st rest
                 | Some match_start \<Rightarrow>
                     (let idxs = overlap_scan match_start (match_start + length error) 0 0
                                   (map content rows)
                      in if idxs \<noteq> []
                         then (case highlight_matched_words tol rows idxs error st of
                                 Inl x \<Rightarrow> Inl x
                               | Inr st' \<Rightarrow> match_errors tol rows True st' rest)
                         else match_errors tol rows True st rest)))
      | _ \<Rightarrow> match_errors tol rows matches_found st rest)"

text \<open>\<open>process_word_matches\<close>, lines 239-290.\<close>

definition process_word_matches ::
  "real \<Rightarrow> 's word_row list \<Rightarrow> pyval \<Rightarrow> box \<Rightarrow> page_state \<Rightarrow> py_error + page_state" where
  "process_word_matches tol rows error_list para_bbox st =
     then_do (py_iter error_list) (\<lambda>errors.
     then_do (match_errors tol rows False st errors) (\<lambda>(matches_found, st').
       if \<not> matches_found then highlight_paragraph para_bbox error_list st' else Inr st'))"

subsection \<open>\<open>process_paragraph\<close>\<close>

text \<open>
  A cell of a sheet as \<open>pd.read_excel\<close> gives it: empty (NaN), a text or a number.
  \<open>pd.isna\<close> is true of the empty cell only.
\<close>

datatype cell = Empty | Text string | Number int

fun cell_value :: "cell \<Rightarrow> pyval" where
  "cell_value Empty = PNone"
| "cell_value (Text s) = PStr s"
| "cell_value (Number n) = PInt n"

record para_row =
  page_number :: int
  para_clipbounds :: box_val
  error_phrase :: cell

text \<open>A row of the word table, \<open>Clipbounds\<close> already through \<open>safe_literal_eval\<close>.\<close>

record table_word =
  file_name :: string
  word_page :: int
  word_clipbounds :: box_val
  word_content :: string

text \<open>
  Lines 203-210: the rows of the file and page whose box \<open>is_within\<close> the paragraph
  box, in table order. An exception of \<open>is_within\<close> leaves \<open>apply\<close> with it. A row
  on which \<open>is_within\<close> is true holds a list, which the window keeps.
\<close>

fun the_box :: "box_val \<Rightarrow> box" where
  "the_box (BList xs) = xs"
| "the_box _ = []"

fun select_window :: "string \<Rightarrow> int \<Rightarrow> box \<Rightarrow> table_word list \<Rightarrow> py_error + unit word_row list" where
  "select_window filename page para_bbox [] = Inr []"
| "select_window filename page para_bbox (w # ws) =
     (if file_name w = filename \<and> word_page w = page then
        (case is_within (word_clipbounds w) (BList para_bbox) of
           Inl e \<Rightarrow> Inl e
         | Inr inside \<Rightarrow>
             (case select_window filename page para_bbox ws of
                Inl e \<Rightarrow> Inl e
              | Inr rows \<Rightarrow>
                  Inr (if inside
                       then \<lparr> content = word_content w, clipbounds = the_box (word_clipbounds w),
                               spans = NaN, next_word_span = NaN \<rparr> # rows
                       else rows)))
      else select_window filename page para_bbox ws)"

text \<open>
  Lines 180-194: from the authoring coordinates to the page's, then the buffer.
  \<open>fsub\<close> and \<open>fadd\<close> are the subtraction and the addition of Python floats.
\<close>

definition convert_and_buffer ::
  "(real \<Rightarrow> real \<Rightarrow> real) \<Rightarrow> (real \<Rightarrow> real \<Rightarrow> real) \<Rightarrow> real \<Rightarrow> real \<Rightarrow> box_val
     \<Rightarrow> py_error + box" where
  "convert_and_buffer fsub fadd buffer page_height b =
     then_do (val_item b 0) (\<lambda>x0. then_do (val_item b 1) (\<lambda>y0.
     then_do (val_item b 2) (\<lambda>x1. then_do (val_item b 3) (\<lambda>y1.
       Inr [fsub x0 buffer, fsub (fsub page_height y0) buffer,
            fadd x1 buffer, fadd (fsub page_height y1) buffer]))))"

text \<open>
  \<open>process_paragraph\<close>, lines 151-220. The PDF document is the function \<open>page_height\<close>
  from a page index to the height of that page, \<open>None\<close> where \<open>pdf_document[i]\<close> raises
  \<open>IndexError\<close>. The result is what the paragraph leaves behind: the list stored in
  the \<open>Annotation_bbox\<close> column of its row, and the annotations asked of the page. A
  paragraph left by an early \<open>return\<close> keeps the empty list of \<open>load_data\<close> and asks
  nothing of the page.
\<close>

definition process_paragraph ::
  "(string \<Rightarrow> pyval option) \<Rightarrow> (real \<Rightarrow> real \<Rightarrow> real) \<Rightarrow> (real \<Rightarrow> real \<Rightarrow> real) \<Rightarrow> real \<Rightarrow> real
     \<Rightarrow> (int \<Rightarrow> real option) \<Rightarrow> table_word list \<Rightarrow> para_row \<Rightarrow> string
     \<Rightarrow> py_error + page_state" where
  "process_paragraph lit fsub fadd buffer tol page_height df_words row filename =
     (let page_index = page_number row - 1;
          nothing = \<lparr> annotation_bboxes = [], annots = [] \<rparr>
      in if not_box (para_clipbounds row) \<or> error_phrase row = Empty then Inr nothing
         else (case page_height page_index of
                 None \<Rightarrow> Inr nothing
               | Some h \<Rightarrow>
                   then_do (convert_and_buffer fsub fadd buffer h (para_clipbounds row))
                     (\<lambda>para_bbox.
                        let error_list = parse_error_phrases lit (cell_value (error_phrase row))
                        in if \<not> truthy error_list then Inr nothing
                           else then_do
                                  (select_window filename (page_index + 1) para_bbox df_words)
                                  (\<lambda>matching_rows.
                                     if matching_rows = []
                                     then highlight_paragraph para_bbox error_list nothing
                                     else process_word_matches tol matching_rows error_list
                                            para_bbox nothing))))"

section \<open>Notions used in the statements\<close>

text \<open>
  Word \<open>k - 1\<close> may be followed by word \<open>k\<close> in a run: Python's \<open>!=\<close> finds the
  \<open>Next Word Span\<close> of the one and the \<open>Spans\<close> of the other not different.
\<close>

definition adjacent :: "'s word_row list \<Rightarrow> nat \<Rightarrow> bool" where
  "adjacent rows k = (\<not> span_ne (next_word_span (rows ! (k - 1))) (spans (rows ! k)))"

text \<open>A row for the examples: content, top of its box, span and next span.\<close>

definition mk_word :: "string \<Rightarrow> real \<Rightarrow> nat \<Rightarrow> nat \<Rightarrow> nat word_row" where
  "mk_word c y s n =
     \<lparr> content = c, clipbounds = [0, y, 5, y + 5], spans = Span s, next_word_span = Span n \<rparr>"

text \<open>
  Boxes of at least four coordinates, as every row of the window has: a row is in the
  window when \<open>is_within\<close> returned true, which takes its four comparisons.
\<close>

definition wf_boxes :: "box list \<Rightarrow> bool" where
  "wf_boxes bs = list_all (\<lambda>b. 4 \<le> length b) bs"

definition wf_rows :: "'s word_row list \<Rightarrow> bool" where
  "wf_rows rows = wf_boxes (map clipbounds rows)"

text \<open>
  The character span of word \<open>i\<close> in the joined string, as the specification has it:
  the first word starts at offset 0, each offset advances by the length of the word and
  one for the separator, and a word occupies the offsets from its start up to, and not
  including, its start plus its length. Two spans overlap when they share an offset.
\<close>

fun word_start :: "string list \<Rightarrow> nat \<Rightarrow> nat" where
  "word_start ws 0 = 0"
| "word_start ws (Suc i) = word_start ws i + length (ws ! i) + 1"

definition word_end :: "string list \<Rightarrow> nat \<Rightarrow> nat" where
  "word_end ws i = word_start ws i + length (ws ! i)"

definition span_overlaps :: "string list \<Rightarrow> nat \<Rightarrow> nat \<Rightarrow> nat \<Rightarrow> bool" where
  "span_overlaps ws i match_start match_end =
     (max (word_start ws i) match_start < min (word_end ws i) match_end)"

text \<open>
  For the examples: a document of one page of height \<open>h\<close>, and an
  \<open>ast.literal_eval\<close> that raises (as it does on a bare word).
\<close>

definition single_page :: "real \<Rightarrow> int \<Rightarrow> real option" where
  "single_page h i = (if i = 0 then Some h else None)"

definition not_a_literal :: "string \<Rightarrow> pyval option" where
  "not_a_literal s = None"

section \<open>Containment\<close>

lemma within_body_four:
  "within_body (BList [b0, b1, b2, b3]) (BList [c0, c1, c2, c3])
     = Inr (b0 \<ge> c0 \<and> b2 \<le> c2 \<and> b1 \<ge> c1 \<and> b3 \<le> c3)"
  by (simp add: within_body_def and_then_def cmp_items_def val_item_def item_def)

lemma within_body_left_unsubscriptable:
  "within_body BNone c = Inl TypeError"
  "within_body BNaN c = Inl TypeError"
  "within_body (BList []) c = Inl IndexError"
  by (simp_all add: within_body_def and_then_def cmp_items_def val_item_def item_def)

lemma within_body_right_unsubscriptable:
  "within_body (BList [b0, b1, b2, b3]) BNone = Inl TypeError"
  "within_body (BList [b0, b1, b2, b3]) BNaN = Inl TypeError"
  "within_body (BList [b0, b1, b2, b3]) (BList []) = Inl IndexError"
  by (simp_all add: within_body_def and_then_def cmp_items_def val_item_def item_def)

text \<open>
  C8 (as amended). On boxes of four coordinates both copies of the containment test
  return true exactly when the four inequalities hold. When either box is \<open>None\<close> or
  an empty list, \<open>PDFErrorAnnotator.is_within\<close> returns false and raises nothing,
  whatever the other box is. The inline copy of the scripts has no such guard: given
  \<open>None\<close> for the inner box it raises \<open>TypeError\<close> and given an empty list
  \<open>IndexError\<close>, whatever the container is; and given an inner box of four coordinates
  it raises \<open>TypeError\<close> on the container \<open>None\<close> and \<open>IndexError\<close> on an empty one.
\<close>

theorem is_within_iff_inequalities:
  "is_within (BList [b0, b1, b2, b3]) (BList [c0, c1, c2, c3])
     = Inr (b0 \<ge> c0 \<and> b2 \<le> c2 \<and> b1 \<ge> c1 \<and> b3 \<le> c3)
   \<and> is_within BNone container = Inr False
   \<and> is_within (BList []) container = Inr False
   \<and> is_within bbox BNone = Inr False
   \<and> is_within bbox (BList []) = Inr False
   \<and> is_within_script (BList [b0, b1, b2, b3]) (BList [c0, c1, c2, c3])
     = Inr (b0 \<ge> c0 \<and> b2 \<le> c2 \<and> b1 \<ge> c1 \<and> b3 \<le> c3)
   \<and> is_within_script BNone container = Inl TypeError
   \<and> is_within_script (BList []) container = Inl IndexError
   \<and> is_within_script (BList [b0, b1, b2, b3]) BNone = Inl TypeError
   \<and> is_within_script (BList [b0, b1, b2, b3]) (BList []) = Inl IndexError"
  by (simp add: is_within_def is_within_script_def not_box_def within_body_four
        within_body_left_unsubscriptable within_body_right_unsubscriptable)

theorem is_within_iff_inequalities_witness:
  "is_within (BList [1, 1, 2, 2]) (BList [0, 0, 3, 3]) = Inr True
   \<and> is_within (BList [1, 1, 4, 2]) (BList [0, 0, 3, 3]) = Inr False
   \<and> is_within BNone (BList [0, 0, 3, 3]) = Inr False
   \<and> is_within (BList [1, 1, 2, 2]) BNone = Inr False
   \<and> is_within_script (BList [1, 1, 2, 2]) (BList [0, 0, 3, 3]) = Inr True
   \<and> is_within_script BNone (BList [0, 0, 3, 3]) = Inl TypeError
   \<and> is_within_script (BList []) (BList [0, 0, 3, 3]) = Inl IndexError"
  using is_within_iff_inequalities
          [where ?b0.0 = 1 and ?b1.0 = 1 and ?b2.0 = 2 and ?b3.0 = 2
             and ?c0.0 = 0 and ?c1.0 = 0 and ?c2.0 = 3 and ?c3.0 = 3
             and container = "BList [0, 0, 3, 3]" and bbox = "BList [1, 1, 2, 2]"]
        is_within_iff_inequalities
          [where ?b0.0 = 1 and ?b1.0 = 1 and ?b2.0 = 4 and ?b3.0 = 2
             and ?c0.0 = 0 and ?c1.0 = 0 and ?c2.0 = 3 and ?c3.0 = 3
             and container = "BList [0, 0, 3, 3]" and bbox = "BList [1, 1, 2, 2]"]
  by simp

text \<open>
  C8, counterexample: the inline \<open>is_within\<close> of Simple.py, given an absent word box
  (\<open>None\<close>, or an empty list) and a paragraph box, raises instead of returning false.
\<close>

theorem is_within_script_absent_raises:
  "is_within_script BNone (BList [0, 0, 10, 10]) = Inl TypeError
   \<and> is_within_script BNone (BList [0, 0, 10, 10]) \<noteq> Inr False
   \<and> is_within_script (BList []) (BList [0, 0, 10, 10]) = Inl IndexError
   \<and> is_within_script (BList []) (BList [0, 0, 10, 10]) \<noteq> Inr False"
  by (simp add: is_within_script_def within_body_left_unsubscriptable)

text \<open>
  The NaN of an empty cell is not caught by \<open>not bbox\<close>: with a container that is a
  box, both copies raise \<open>TypeError\<close> on it.
\<close>

lemma is_within_nan_raises:
  "is_within BNaN (BList [c0, c1, c2, c3]) = Inl TypeError"
  "is_within_script BNaN container = Inl TypeError"
  by (simp_all add: is_within_def is_within_script_def not_box_def
        within_body_left_unsubscriptable)

section \<open>What the phrase parser returns\<close>

text \<open>
  C7 (as amended). A list is returned as it is, elements untouched; a value that is
  neither a string nor a list gives the empty list; a string gives the value of its
  literal when \<open>ast.literal_eval\<close> accepts it and the one-element list holding the
  string itself when it raises. The parser filters nothing: since
  \<open>ast.literal_eval('')\<close> raises, the empty string gives \<open>['']\<close>. It is the loop of
  \<open>process_word_matches\<close> that passes over an element that is empty or not a string.
\<close>

theorem parse_error_phrases_result:
  "parse_error_phrases lit (PList xs) = PList xs
   \<and> parse_error_phrases lit PNone = PList []
   \<and> parse_error_phrases lit (PInt n) = PList []
   \<and> (lit s = None \<longrightarrow> parse_error_phrases lit (PStr s) = PList [PStr s])
   \<and> (lit s = Some v \<longrightarrow> parse_error_phrases lit (PStr s) = v)
   \<and> match_errors tol rows found st (PStr [] # rest) = match_errors tol rows found st rest
   \<and> match_errors tol rows found st (PInt n # rest) = match_errors tol rows found st rest
   \<and> match_errors tol rows found st (PNone # rest) = match_errors tol rows found st rest"
  by (simp add: parse_error_phrases_def)

theorem parse_error_phrases_result_witness:
  "parse_error_phrases (\<lambda>s. if s = ''[]'' then Some (PList []) else None)
       (PList [PStr ''a b'', PStr ''c'']) = PList [PStr ''a b'', PStr ''c'']
   \<and> parse_error_phrases (\<lambda>s. if s = ''[]'' then Some (PList []) else None) PNone = PList []
   \<and> parse_error_phrases (\<lambda>s. if s = ''[]'' then Some (PList []) else None) (PStr [])
       = PList [PStr []]
   \<and> parse_error_phrases (\<lambda>s. if s = ''[]'' then Some (PList []) else None) (PStr ''[]'')
       = PList []"
  using parse_error_phrases_result
          [of "\<lambda>s. if s = ''[]'' then Some (PList []) else None"
              "[PStr ''a b'', PStr ''c'']" 0 "[]" "PList []"]
        parse_error_phrases_result
          [of "\<lambda>s. if s = ''[]'' then Some (PList []) else None"
              "[]" 0 "''[]''" "PList []"]
  by simp

text \<open>
  C7, counterexample: a list holding an empty string and a number is returned
  unchanged, so a returned element can be empty and can be a non-string
  (\<open>ast.literal_eval\<close> is not called on a list, whatever it is).
\<close>

theorem parse_error_phrases_keeps_empty:
  "parse_error_phrases (\<lambda>s. None) (PList [PStr [], PInt 7]) = PList [PStr [], PInt 7]
   \<and> PStr [] \<in> set [PStr [], PInt 7]
   \<and> parse_error_phrases (\<lambda>s. None) (PStr []) \<noteq> PList []"
  by (simp add: parse_error_phrases_def)

section \<open>Step 3: runs and the choice of the winner\<close>

lemma span_ne_eq: "\<not> span_ne a b \<Longrightarrow> a = b"
  by (cases a; cases b) auto

lemma extend_run_stops:
  "span_ne (next_word_span (rows ! (j - 1))) (spans (rows ! j))
   \<Longrightarrow> extend_run rows clean_error built temp_sequence j = (built, temp_sequence, j)"
  by (subst extend_run.simps) simp

lemma extend_run_is_run:
  "extend_run rows clean_error built temp_sequence j = (b, s, j') \<Longrightarrow>
   temp_sequence = [i..<j] \<Longrightarrow> i < j \<Longrightarrow> j \<le> length rows \<Longrightarrow>
   (\<forall>k. i < k \<and> k < j \<longrightarrow> adjacent rows k) \<Longrightarrow>
   s = [i..<j'] \<and> j' \<le> length rows \<and> (\<forall>k. i < k \<and> k < j' \<longrightarrow> adjacent rows k)"
proof (induction rows clean_error built temp_sequence j rule: extend_run.induct)
  case (1 rows clean_error built temp_sequence j)
  show ?case
  proof (cases "j < length rows \<and> prefix built clean_error
                \<and> \<not> span_ne (next_word_span (rows ! (j - 1))) (spans (rows ! j))
                \<and> prefix (built @ strip_spaces (content (rows ! j))) clean_error")
    case True
    then have rec: "extend_run rows clean_error (built @ strip_spaces (content (rows ! j)))
                 (temp_sequence @ [j]) (Suc j) = (b, s, j')"
      using "1.prems"(1) by (subst (asm) extend_run.simps) (simp add: Let_def)
    have seq: "temp_sequence @ [j] = [i..<Suc j]" using "1.prems"(2,3) by simp
    have adj: "\<forall>k. i < k \<and> k < Suc j \<longrightarrow> adjacent rows k"
      using "1.prems"(5) True by (auto simp: adjacent_def less_Suc_eq)
    from True have c1: "j < length rows \<and> prefix built clean_error" by simp
    from True have c2: "\<not> span_ne (next_word_span (rows ! (j - 1))) (spans (rows ! j))" by simp
    from True have c3: "prefix (built @ strip_spaces (content (rows ! j))) clean_error" by simp
    show ?thesis
      using "1.IH"[OF c1 c2 refl c3 rec seq] "1.prems"(3) True adj by simp
  next
    case False
    then have "s = temp_sequence \<and> j' = j"
      using "1.prems"(1) by (subst (asm) extend_run.simps) (auto simp: Let_def split: if_splits)
    then show ?thesis using "1.prems" by simp
  qed
qed

lemma candidate_at_is_run:
  assumes "candidate_at rows sub_err error i = (Some m, j)" "i < length rows"
  shows "sequence m = [i..<j] \<and> i < j \<and> j \<le> length rows
         \<and> (\<forall>k. i < k \<and> k < j \<longrightarrow> adjacent rows k)"
proof -
  obtain b s j' where ex: "extend_run rows (strip_spaces sub_err)
        (strip_spaces (content (rows ! i))) [i] (Suc i) = (b, s, j')"
    by (cases "extend_run rows (strip_spaces sub_err)
        (strip_spaces (content (rows ! i))) [i] (Suc i)") auto
  from assms(1) ex have m: "sequence m = s" "j = j'"
    by (auto simp: candidate_at_def Let_def split: if_splits)
  have "s = [i..<j'] \<and> j' \<le> length rows \<and> (\<forall>k. i < k \<and> k < j' \<longrightarrow> adjacent rows k)"
  proof -
    have v: "\<forall>k. i < k \<and> k < Suc i \<longrightarrow> adjacent rows k" by auto
    show ?thesis using extend_run_is_run[OF ex _ _ _ v] assms(2) by simp
  qed
  moreover have "i < j'" using extend_run_advances[OF ex] by simp
  ultimately show ?thesis using m by simp
qed

lemma scan_from_runs:
  "m \<in> set (scan_from rows used_indices sub_err error i) \<Longrightarrow>
   \<exists>a b. sequence m = [a..<b] \<and> a < b \<and> b \<le> length rows \<and> a \<notin> used_indices
      \<and> (\<forall>k. a < k \<and> k < b \<longrightarrow> adjacent rows k)"
proof (induction rows used_indices sub_err error i rule: scan_from.induct)
  case (1 rows used_indices sub_err error i)
  show ?case
  proof (cases "i < length rows")
    case False
    then show ?thesis using "1.prems" by (subst (asm) scan_from.simps) simp
  next
    case lt: True
    show ?thesis
    proof (cases "i \<in> used_indices")
      case True
      then have "m \<in> set (scan_from rows used_indices sub_err error (Suc i))"
        using "1.prems" lt by (subst (asm) scan_from.simps) simp
      then show ?thesis using "1.IH"(1)[OF lt True] by blast
    next
      case nu: False
      obtain c j where cj: "candidate_at rows sub_err error i = (c, j)"
        by (cases "candidate_at rows sub_err error i") auto
      show ?thesis
      proof (cases c)
        case None
        then have "m \<in> set (scan_from rows used_indices sub_err error j)"
          using "1.prems" lt nu cj by (subst (asm) scan_from.simps) simp
        then show ?thesis using "1.IH"(2)[OF lt nu cj[symmetric, unfolded None]] by blast
      next
        case (Some m')
        then have "m = m' \<or> m \<in> set (scan_from rows used_indices sub_err error j)"
          using "1.prems" lt nu cj by (subst (asm) scan_from.simps) auto
        then show ?thesis
        proof
          assume "m = m'"
          then show ?thesis using candidate_at_is_run[of rows sub_err error i m j] cj Some lt nu
            by blast
        next
          assume "m \<in> set (scan_from rows used_indices sub_err error j)"
          then show ?thesis using "1.IH"(3)[OF lt nu cj[symmetric, unfolded Some]] by blast
        qed
      qed
    qed
  qed
qed

text \<open>
  C5. Every candidate of Step 3 is a run \<open>a, a+1, ..., b-1\<close> of rows of the window in
  which each word after the first has, as its span identifier, the next-word-span
  identifier of the word before it; where the two differ the inner loop returns at
  once, with the run and \<open>j\<close> unchanged.
\<close>

theorem partial_runs_adjacent:
  "(m \<in> set (all_matches rows used_indices error) \<longrightarrow>
      (\<exists>a b. sequence m = [a..<b] \<and> a < b \<and> b \<le> length rows
           \<and> (\<forall>j. a < j \<and> j < b \<longrightarrow>
                  next_word_span (rows ! (j - 1)) = spans (rows ! j)
                  \<and> \<not> span_ne (next_word_span (rows ! (j - 1))) (spans (rows ! j)))))
   \<and> (span_ne (next_word_span (rows ! (j - 1))) (spans (rows ! j)) \<longrightarrow>
        extend_run rows clean_error built temp_sequence j = (built, temp_sequence, j))"
proof (intro conjI impI)
  assume "span_ne (next_word_span (rows ! (j - 1))) (spans (rows ! j))"
  then show "extend_run rows clean_error built temp_sequence j = (built, temp_sequence, j)"
    by (rule extend_run_stops)
next
  assume assms: "m \<in> set (all_matches rows used_indices error)"
  from assms obtain sub_err where "m \<in> set (scan_from rows used_indices sub_err error 0)"
    by (auto simp: all_matches_def)
  from scan_from_runs[OF this] obtain a b where
    ab: "sequence m = [a..<b]" "a < b" "b \<le> length rows"
        "\<forall>k. a < k \<and> k < b \<longrightarrow> adjacent rows k"
    by blast
  then show "\<exists>a b. sequence m = [a..<b] \<and> a < b \<and> b \<le> length rows
           \<and> (\<forall>j. a < j \<and> j < b \<longrightarrow>
                  next_word_span (rows ! (j - 1)) = spans (rows ! j)
                  \<and> \<not> span_ne (next_word_span (rows ! (j - 1))) (spans (rows ! j)))"
    by (auto simp: adjacent_def dest: span_ne_eq)
qed

text \<open>
  The window \<open>a b c\<close>, where \<open>b\<close> names a next span that is not the span of \<open>c\<close>,
  and the phrase \<open>abc\<close>: the only candidate is the run \<open>a b\<close>.
\<close>

theorem partial_runs_adjacent_witness:
  "all_matches [mk_word ''a'' 0 0 1, mk_word ''b'' 0 1 9, mk_word ''c'' 0 2 3] {} ''abc''
     = [\<lparr> sequence = [0, 1], match_text = ''ab'', is_full_match = False, cand_length = 2,
           sub_error = ''abc'', original_error = ''abc'' \<rparr>]
   \<and> (\<exists>a b. sequence \<lparr> sequence = [0, 1], match_text = ''ab'', is_full_match = False,
                          cand_length = 2, sub_error = ''abc'', original_error = ''abc'' \<rparr>
               = [a..<b] \<and> a < b
             \<and> b \<le> length [mk_word ''a'' 0 0 1, mk_word ''b'' 0 1 9, mk_word ''c'' 0 2 3])
   \<and> extend_run [mk_word ''a'' 0 0 1, mk_word ''b'' 0 1 9, mk_word ''c'' 0 2 3]
         ''abc'' ''ab'' [0, 1] 2 = (''ab'', [0, 1], 2)"
proof -
  let ?rows = "[mk_word ''a'' 0 0 1, mk_word ''b'' 0 1 9, mk_word ''c'' 0 2 3]"
  let ?m = "\<lparr> sequence = [0, 1], match_text = ''ab'', is_full_match = False, cand_length = 2,
             sub_error = ''abc'', original_error = ''abc'' \<rparr>"
  have all: "all_matches ?rows {} ''abc'' = [?m]" by code_simp
  have ne: "span_ne (next_word_span (?rows ! (2 - 1))) (spans (?rows ! 2))"
    by (simp add: mk_word_def)
  from partial_runs_adjacent[of ?m ?rows "{}" "''abc''" 2 "''abc''" "''ab''" "[0, 1]"] all ne
  have "(\<exists>a b. sequence ?m = [a..<b] \<and> a < b \<and> b \<le> length ?rows)
        \<and> extend_run ?rows ''abc'' ''ab'' [0, 1] 2 = (''ab'', [0, 1], 2)"
    by auto
  with all show ?thesis by blast
qed



lemma find_hd_filter: "filter P xs \<noteq> [] \<Longrightarrow> find P xs = Some (hd (filter P xs))"
  by (induction xs) auto

lemma select_match_no_full:
  assumes "filter is_full_match (a # as) = []"
  shows "select_match (a # as)
           = find (\<lambda>m. cand_length m = Max (set (map cand_length (a # as)))) (a # as)"
proof -
  have M: "Max (set (map cand_length (a # as))) = fold max (map cand_length as) (cand_length a)"
    by (simp only: list.map Max.set_eq_fold)
  show ?thesis unfolding M select_match_def Let_def using assms by simp
qed

lemma select_match_None: "(select_match ms = None) = (ms = [])"
proof (cases ms)
  case Nil
  then show ?thesis by (simp add: select_match_def)
next
  case (Cons a as)
  show ?thesis
  proof (cases "filter is_full_match ms = []")
    case True
    have "Max (set (map cand_length ms)) \<in> set (map cand_length ms)"
      using Cons by (intro Max_in) auto
    then have "\<exists>x. x \<in> set ms \<and> cand_length x = Max (set (map cand_length ms))"
      by auto
    then have "find (\<lambda>m. cand_length m = Max (set (map cand_length ms))) ms \<noteq> None"
      by (simp only: find_None_iff) blast
    then show ?thesis using Cons True select_match_no_full[of a as] by simp
  next
    case False
    then show ?thesis using Cons by (simp add: select_match_def)
  qed
qed

lemma select_match_full:
  assumes "select_match ms = Some m" "\<exists>x\<in>set ms. is_full_match x"
  shows "\<exists>k<length ms. ms ! k = m \<and> is_full_match m \<and> (\<forall>k'<k. \<not> is_full_match (ms ! k'))"
proof -
  from assms(2) have ne: "filter is_full_match ms \<noteq> []" by (auto simp: filter_empty_conv)
  with assms(1) have "m = hd (filter is_full_match ms)" by (simp add: select_match_def)
  with find_hd_filter[OF ne] have "find is_full_match ms = Some m" by simp
  then show ?thesis by (auto simp: find_Some_iff)
qed

lemma select_match_longest:
  assumes "select_match ms = Some m" "\<forall>x\<in>set ms. \<not> is_full_match x"
  shows "\<exists>k<length ms. ms ! k = m \<and> (\<forall>x\<in>set ms. cand_length x \<le> cand_length m)
           \<and> (\<forall>k'<k. cand_length (ms ! k') < cand_length m)"
proof -
  from assms(2) have e: "filter is_full_match ms = []" by (auto simp: filter_empty_conv)
  from assms(1) have ne: "ms \<noteq> []" using select_match_None[of ms] by auto
  then obtain a as where ms: "ms = a # as" by (cases ms) auto
  let ?M = "Max (set (map cand_length ms))"
  from e ms select_match_no_full[of a as] assms(1)
  have f: "find (\<lambda>m. cand_length m = ?M) ms = Some m"
    by simp
  then obtain k where k: "k < length ms" "ms ! k = m" "cand_length m = ?M"
     "\<forall>j<k. cand_length (ms ! j) \<noteq> ?M"
    by (auto simp: find_Some_iff)
  have le: "\<forall>x\<in>set ms. cand_length x \<le> ?M" by (auto intro: Max_ge)
  have "\<forall>j<k. cand_length (ms ! j) < cand_length m"
  proof (intro allI impI)
    fix j assume "j < k"
    then have "ms ! j \<in> set ms" using k(1) by simp
    with le have "cand_length (ms ! j) \<le> ?M" by blast
    moreover have "cand_length (ms ! j) \<noteq> ?M" using k(4) \<open>j < k\<close> by blast
    ultimately show "cand_length (ms ! j) < cand_length m" using k(3) by simp
  qed
  with k le show ?thesis by auto
qed

text \<open>
  C6. \<open>select_match\<close> returns nothing only when there is no candidate. Otherwise the
  winner is a candidate of the list, at a position \<open>k\<close>: when some candidate is a
  full match, the winner is a full match (so it goes before every candidate that is
  not), and the first of them; when none is, the winner has the greatest length, and
  every candidate found before it is strictly shorter.
\<close>

theorem select_match_preference:
  "(select_match ms = None) = (ms = [])
   \<and> (select_match ms = Some m \<longrightarrow>
        (\<exists>k<length ms. ms ! k = m
           \<and> ((\<exists>x\<in>set ms. is_full_match x) \<longrightarrow>
                 is_full_match m \<and> (\<forall>k'<k. \<not> is_full_match (ms ! k')))
           \<and> ((\<forall>x\<in>set ms. \<not> is_full_match x) \<longrightarrow>
                 (\<forall>x\<in>set ms. cand_length x \<le> cand_length m)
                 \<and> (\<forall>k'<k. cand_length (ms ! k') < cand_length m))))"
proof (intro conjI impI)
  show "(select_match ms = None) = (ms = [])" by (rule select_match_None)
next
  assume sel: "select_match ms = Some m"
  show "\<exists>k<length ms. ms ! k = m
           \<and> ((\<exists>x\<in>set ms. is_full_match x) \<longrightarrow>
                 is_full_match m \<and> (\<forall>k'<k. \<not> is_full_match (ms ! k')))
           \<and> ((\<forall>x\<in>set ms. \<not> is_full_match x) \<longrightarrow>
                 (\<forall>x\<in>set ms. cand_length x \<le> cand_length m)
                 \<and> (\<forall>k'<k. cand_length (ms ! k') < cand_length m))"
  proof (cases "\<exists>x\<in>set ms. is_full_match x")
    case True
    from select_match_full[OF sel True] obtain k where
      "k < length ms" "ms ! k = m" "is_full_match m" "\<forall>k'<k. \<not> is_full_match (ms ! k')"
      by blast
    with True show ?thesis by blast
  next
    case False
    then have nf: "\<forall>x\<in>set ms. \<not> is_full_match x" by blast
    from select_match_longest[OF sel nf] obtain k where
      "k < length ms" "ms ! k = m" "\<forall>x\<in>set ms. cand_length x \<le> cand_length m"
      "\<forall>k'<k. cand_length (ms ! k') < cand_length m"
      by blast
    with False show ?thesis by blast
  qed
qed

theorem select_match_preference_witness:
  "select_match
     [\<lparr> sequence = [0, 1], match_text = ''ab'', is_full_match = False, cand_length = 2,
         sub_error = ''abc d'', original_error = ''abc d'' \<rparr>,
      \<lparr> sequence = [3], match_text = ''d'', is_full_match = True, cand_length = 1,
         sub_error = ''d'', original_error = ''abc d'' \<rparr>]
     = Some \<lparr> sequence = [3], match_text = ''d'', is_full_match = True, cand_length = 1,
         sub_error = ''d'', original_error = ''abc d'' \<rparr>
   \<and> (\<exists>k<2. [\<lparr> sequence = [0, 1], match_text = ''ab'', is_full_match = False, cand_length = 2,
                  sub_error = ''abc d'', original_error = ''abc d'' \<rparr>,
               \<lparr> sequence = [3], match_text = ''d'', is_full_match = True, cand_length = 1,
                  sub_error = ''d'', original_error = ''abc d'' \<rparr>] ! k
             = \<lparr> sequence = [3], match_text = ''d'', is_full_match = True, cand_length = 1,
                  sub_error = ''d'', original_error = ''abc d'' \<rparr>)"
proof -
  let ?a = "\<lparr> sequence = [0, 1], match_text = ''ab'', is_full_match = False, cand_length = 2,
             sub_error = ''abc d'', original_error = ''abc d'' \<rparr>"
  let ?b = "\<lparr> sequence = [3], match_text = ''d'', is_full_match = True, cand_length = 1,
             sub_error = ''d'', original_error = ''abc d'' \<rparr>"
  have sel: "select_match [?a, ?b] = Some ?b" by (simp add: select_match_def)
  from select_match_preference[of "[?a, ?b]" ?b] sel
  have "\<exists>k<length [?a, ?b]. [?a, ?b] ! k = ?b" by blast
  then have "\<exists>k<2. [?a, ?b] ! k = ?b" by (simp only: length_Cons list.size numeral_2_eq_2)
  with sel show ?thesis by blast
qed

section \<open>The highlight rectangles of well-formed boxes\<close>

lemma map_err_total: "(\<And>x. x \<in> set xs \<Longrightarrow> f x = Inr (g x)) \<Longrightarrow> map_err f xs = Inr (map g xs)"
  by (induction xs) auto

lemma item_in_range: "i < length b \<Longrightarrow> item b i = Inr (b ! i)"
  by (simp add: item_def)

lemma loc_boxes_total:
  "(\<And>i. i \<in> set idxs \<Longrightarrow> i < length rows) \<Longrightarrow>
   loc_boxes rows idxs = Inr (map (\<lambda>i. clipbounds (rows ! i)) idxs)"
  unfolding loc_boxes_def by (rule map_err_total) simp

lemma sort_by_y_total:
  assumes "wf_boxes bs"
  shows "\<exists>sorted. sort_by_y bs = Inr sorted \<and> set sorted = set bs \<and> length sorted = length bs"
proof -
  have k: "map_err (\<lambda>b. item b 1) bs = Inr (map (\<lambda>b. b ! 1) bs)"
    using assms by (intro map_err_total item_in_range) (auto simp: wf_boxes_def list_all_iff)
  let ?z = "zip (map (\<lambda>b. b ! 1) bs) bs"
  have ms: "map snd ?z = bs" by (rule map_snd_zip) simp
  have "set (map snd (sort_key fst ?z)) = set (map snd ?z)"
    by (simp only: set_map set_sort)
  with ms have "set (map snd (sort_key fst ?z)) = set bs" by simp
  moreover have "length (map snd (sort_key fst ?z)) = length bs" by simp
  ultimately have "\<exists>sorted. Inr (map snd (sort_key fst ?z)) = (Inr sorted :: py_error + box list)
       \<and> set sorted = set bs \<and> length sorted = length bs"
    by blast
  then show ?thesis unfolding sort_by_y_def then_do_def k by (simp only: sum.case)
qed

lemma group_lines_total:
  "wf_boxes (prev # cur @ bs) \<Longrightarrow> cur \<noteq> [] \<Longrightarrow>
   \<exists>gs. group_lines tol prev cur bs = Inr gs \<and> (\<forall>g\<in>set gs. g \<noteq> [] \<and> wf_boxes g)"
proof (induction bs arbitrary: prev cur)
  case Nil
  then show ?case by (simp add: wf_boxes_def)
next
  case (Cons b bs)
  have ib: "item b 1 = Inr (b ! 1)" and ip: "item prev 1 = Inr (prev ! 1)"
    using Cons.prems(1) by (auto simp: wf_boxes_def item_def)
  have 1: "wf_boxes (b # (cur @ [b]) @ bs)" "cur @ [b] \<noteq> []"
    using Cons.prems by (auto simp: wf_boxes_def)
  have 2: "wf_boxes (b # [b] @ bs)" "[b] \<noteq> []"
    using Cons.prems by (auto simp: wf_boxes_def)
  have wc: "wf_boxes cur" using Cons.prems by (auto simp: wf_boxes_def)
  have step: "group_lines tol prev cur (b # bs) =
     (if \<bar>b ! 1 - prev ! 1\<bar> \<le> tol then group_lines tol b (cur @ [b]) bs
      else (case group_lines tol b [b] bs of Inl e \<Rightarrow> Inl e | Inr gs \<Rightarrow> Inr (cur # gs)))"
    by (simp only: group_lines.simps ib ip sum.case)
  show ?case
  proof (cases "\<bar>b ! 1 - prev ! 1\<bar> \<le> tol")
    case True
    then show ?thesis using Cons.IH[OF 1] by (simp only: step if_True)
  next
    case False
    from Cons.IH[OF 2] obtain gs where
      "group_lines tol b [b] bs = Inr gs" "\<forall>g\<in>set gs. g \<noteq> [] \<and> wf_boxes g" by blast
    then show ?thesis using False wc Cons.prems(2) by (simp add: step del: group_lines.simps)
  qed
qed

lemma group_lines_nonempty: "group_lines tol prev cur bs = Inr gs \<Longrightarrow> gs \<noteq> []"
  by (induction bs arbitrary: prev cur gs) (auto split: sum.splits if_splits)

lemma line_bbox_total:
  assumes "g \<noteq> []" "wf_boxes g"
  shows "\<exists>r. line_bbox g = Inr r \<and> length r = 4"
proof -
  have m: "\<And>i. i < 4 \<Longrightarrow> map_err (\<lambda>b. item b i) g = Inr (map (\<lambda>b. b ! i) g)"
    using assms(2) by (intro map_err_total item_in_range) (auto simp: wf_boxes_def list_all_iff)
  obtain b bs where g: "g = b # bs" using assms(1) by (cases g) auto
  have "\<And>i. \<exists>v. py_min (map (\<lambda>b. b ! i) g) = Inr v" "\<And>i. \<exists>v. py_max (map (\<lambda>b. b ! i) g) = Inr v"
    by (simp_all add: g py_min_def py_max_def)
  then obtain x0 y0 x1 y1 where
    "py_min (map (\<lambda>b. b ! 0) g) = Inr x0" "py_min (map (\<lambda>b. b ! 1) g) = Inr y0"
    "py_max (map (\<lambda>b. b ! 2) g) = Inr x1" "py_max (map (\<lambda>b. b ! 3) g) = Inr y1"
    by metis
  then show ?thesis by (simp add: line_bbox_def then_do_def m)
qed

lemma map_err_exists: "(\<And>x. x \<in> set xs \<Longrightarrow> \<exists>y. f x = Inr y) \<Longrightarrow> \<exists>ys. map_err f xs = Inr ys \<and> length ys = length xs"
proof (induction xs)
  case Nil
  then show ?case by simp
next
  case (Cons x xs)
  then obtain y where "f x = Inr y" by fastforce
  moreover obtain ys where "map_err f xs = Inr ys" "length ys = length xs" using Cons by fastforce
  ultimately show ?case by simp
qed

lemma line_rects_total:
  assumes "bs \<noteq> []" "wf_boxes bs"
  shows "\<exists>rects. line_rects tol bs = Inr rects \<and> rects \<noteq> []"
proof -
  from sort_by_y_total[OF assms(2)] obtain sorted where
    s: "sort_by_y bs = Inr sorted" "set sorted = set bs" "length sorted = length bs" by blast
  with assms(1) obtain b rest where br: "sorted = b # rest" by (cases sorted) auto
  have "wf_boxes sorted" using s(2) assms(2) by (simp add: wf_boxes_def list_all_iff)
  then have "wf_boxes (b # [b] @ rest)" by (simp add: br wf_boxes_def)
  from group_lines_total[OF this, of tol] obtain gs where
    gs: "group_lines tol b [b] rest = Inr gs" "\<forall>g\<in>set gs. g \<noteq> [] \<and> wf_boxes g" by auto
  have "gs \<noteq> []" using gs(1) by (rule group_lines_nonempty)
  moreover from gs(2) obtain rs where "map_err line_bbox gs = Inr rs" "length rs = length gs"
    using map_err_exists[of gs line_bbox] line_bbox_total by blast
  ultimately show ?thesis using s(1) br gs(1) by (auto simp: line_rects_def then_do_def)
qed

lemma line_rects_empty: "line_rects tol [] = Inl IndexError"
  by (simp add: line_rects_def sort_by_y_def then_do_def)

lemma place_total:
  assumes "idxs \<noteq> []" "\<And>i. i \<in> set idxs \<Longrightarrow> i < length rows" "wf_rows rows"
  shows "\<exists>hs. place tol rows idxs error st
           = Inr (st \<lparr> highlights := highlights st @ hs, used := used st \<union> set idxs \<rparr>)"
proof -
  have l: "loc_boxes rows idxs = Inr (map (\<lambda>i. clipbounds (rows ! i)) idxs)"
    using assms(2) by (rule loc_boxes_total)
  have "wf_boxes (map (\<lambda>i. clipbounds (rows ! i)) idxs)"
    using assms(2,3) by (auto simp: wf_rows_def wf_boxes_def list_all_iff)
  moreover have "map (\<lambda>i. clipbounds (rows ! i)) idxs \<noteq> []" using assms(1) by simp
  ultimately obtain rects where "line_rects tol (map (\<lambda>i. clipbounds (rows ! i)) idxs) = Inr rects"
    using line_rects_total by blast
  then show ?thesis by (auto simp: place_def then_do_def l)
qed

lemma place_used:
  "place tol rows idxs error st = Inr st' \<Longrightarrow> used st' = used st \<union> set idxs"
  by (auto simp: place_def then_do_def split: sum.splits)

section \<open>The set of used indices\<close>

lemma direct_scan_unused:
  "i \<in> set (direct_scan match_start error_len used_indices idx cp ws) \<Longrightarrow> i \<notin> used_indices"
  by (induction ws arbitrary: idx cp) (auto simp: Let_def split: if_splits)

lemma direct_scan_range:
  "i \<in> set (direct_scan match_start error_len used_indices idx cp ws) \<Longrightarrow>
   idx \<le> i \<and> i < idx + length ws"
  by (induction ws arbitrary: idx cp) (fastforce simp: Let_def split: if_splits)+

lemma partial_phrase_step:
  assumes "partial_phrase tol rows st error = Inr (out, st')"
  shows "used st' = used st \<union> set (accepted out) \<and> set (accepted out) \<inter> used st = {}"
proof (cases "select_match (all_matches rows (used st) error)")
  case None
  then show ?thesis using assms by (auto simp: partial_phrase_def)
next
  case (Some m)
  show ?thesis
  proof (cases "list_ex (\<lambda>idx. idx \<in> used st) (sequence m)")
    case True
    then show ?thesis using assms Some by (auto simp: partial_phrase_def)
  next
    case False
    then obtain st1 where p: "place tol rows (sequence m) (original_error m) st = Inr st1"
        and o: "out = Partial_accepted m" "st' = st1"
      using assms Some by (auto simp: partial_phrase_def then_do_def split: sum.splits)
    from False have "set (sequence m) \<inter> used st = {}" by (auto simp: list_ex_iff)
    with place_used[OF p] o show ?thesis by simp
  qed
qed

lemma annotate_phrase_step:
  assumes "annotate_phrase tol rows st error = Inr (out, st')"
  shows "used st' = used st \<union> set (accepted out) \<and> set (accepted out) \<inter> used st = {}"
proof (cases "error = []")
  case True
  then show ?thesis using assms by (auto simp: annotate_phrase_def)
next
  case ne: False
  show ?thesis
  proof (cases "find_sub error (all_words_string rows)")
    case None
    then show ?thesis using assms ne partial_phrase_step by (simp add: annotate_phrase_def)
  next
    case (Some ms)
    let ?idxs = "direct_scan ms (length error) (used st) 0 0 (map content rows)"
    show ?thesis
    proof (cases "?idxs = []")
      case True
      then show ?thesis using assms ne Some partial_phrase_step
        by (simp add: annotate_phrase_def Let_def)
    next
      case False
      then obtain st1 where p: "place tol rows ?idxs error st = Inr st1"
        and o: "out = Direct ?idxs" "st' = st1"
        using assms ne Some
        by (auto simp: annotate_phrase_def then_do_def Let_def split: sum.splits)
      have "set ?idxs \<inter> used st = {}" using direct_scan_unused by blast
      with place_used[OF p] o show ?thesis by simp
    qed
  qed
qed

lemma select_match_member: "select_match ms = Some m \<Longrightarrow> m \<in> set ms"
proof -
  assume sel: "select_match ms = Some m"
  show ?thesis
  proof (cases "\<exists>x\<in>set ms. is_full_match x")
    case True
    from select_match_full[OF sel True] show ?thesis by auto
  next
    case False
    then have "\<forall>x\<in>set ms. \<not> is_full_match x" by blast
    from select_match_longest[OF sel this] show ?thesis by auto
  qed
qed

lemma all_matches_runs:
  assumes "m \<in> set (all_matches rows used_indices error)"
  shows "sequence m \<noteq> [] \<and> (\<forall>i\<in>set (sequence m). i < length rows)"
proof -
  from assms obtain sub_err where "m \<in> set (scan_from rows used_indices sub_err error 0)"
    by (auto simp: all_matches_def)
  from scan_from_runs[OF this] obtain a b where
    "sequence m = [a..<b]" "a < b" "b \<le> length rows" by blast
  then show ?thesis by auto
qed

lemma partial_phrase_total:
  assumes "wf_rows rows"
  shows "\<exists>out st'. partial_phrase tol rows st error = Inr (out, st')"
proof (cases "select_match (all_matches rows (used st) error)")
  case None
  then show ?thesis by (simp add: partial_phrase_def)
next
  case (Some m)
  show ?thesis
  proof (cases "list_ex (\<lambda>idx. idx \<in> used st) (sequence m)")
    case True
    then show ?thesis using Some by (simp add: partial_phrase_def)
  next
    case False
    from all_matches_runs[OF select_match_member[OF Some]] have
      ne: "sequence m \<noteq> []" and rng: "\<And>i. i \<in> set (sequence m) \<Longrightarrow> i < length rows" by auto
    from place_total[OF ne rng assms] obtain st1 where
      "place tol rows (sequence m) (original_error m) st = Inr st1" by blast
    then show ?thesis using Some False by (simp add: partial_phrase_def then_do_def)
  qed
qed

lemma annotate_phrase_total:
  assumes "wf_rows rows"
  shows "\<exists>out st'. annotate_phrase tol rows st error = Inr (out, st')"
proof (cases "error = []")
  case True
  then show ?thesis by (simp add: annotate_phrase_def)
next
  case ne: False
  show ?thesis
  proof (cases "find_sub error (all_words_string rows)")
    case None
    then show ?thesis using ne partial_phrase_total[OF assms] by (simp add: annotate_phrase_def)
  next
    case (Some ms)
    let ?idxs = "direct_scan ms (length error) (used st) 0 0 (map content rows)"
    show ?thesis
    proof (cases "?idxs = []")
      case True
      then show ?thesis using ne Some partial_phrase_total[OF assms]
        by (simp add: annotate_phrase_def Let_def)
    next
      case False
      have rng: "\<And>k. k \<in> set ?idxs \<Longrightarrow> k < length rows"
        using direct_scan_range[of _ ms "length error" "used st" 0 0 "map content rows"] by simp
      from place_total[OF False rng assms] obtain st1 where
        "place tol rows ?idxs error st = Inr st1" by blast
      then show ?thesis using ne Some False
        by (simp add: annotate_phrase_def Let_def then_do_def)
    qed
  qed
qed

lemma annotate_phrases_total:
  "wf_rows rows \<Longrightarrow> \<exists>outs st'. annotate_phrases tol rows st errors = Inr (outs, st')"
proof (induction errors arbitrary: st)
  case Nil
  then show ?case by simp
next
  case (Cons e es)
  from annotate_phrase_total[OF Cons.prems] obtain out st1 where
    s: "annotate_phrase tol rows st e = Inr (out, st1)" by blast
  from Cons.IH[OF Cons.prems] obtain outs st2 where
    "annotate_phrases tol rows st1 es = Inr (outs, st2)" by blast
  with s show ?case by simp
qed

lemma accepted_runs_invariant:
  assumes "annotate_phrases tol rows st errors = Inr (outs, st')"
  shows "length outs = length errors
       \<and> used st \<subseteq> used st'
       \<and> used st' = used st \<union> (\<Union>out\<in>set outs. set (accepted out))
       \<and> (\<forall>k<length outs. set (accepted (outs ! k)) \<inter> used st = {})
       \<and> (\<forall>k l. k < l \<and> l < length outs \<longrightarrow>
             set (accepted (outs ! k)) \<inter> set (accepted (outs ! l)) = {})"
  using assms
proof (induction errors arbitrary: st outs)
  case Nil
  then show ?case by auto
next
  case (Cons e es)
  from Cons.prems obtain out st1 os where
    s: "annotate_phrase tol rows st e = Inr (out, st1)"
    and r: "annotate_phrases tol rows st1 es = Inr (os, st')"
    and o: "outs = out # os"
    by (auto split: sum.splits prod.splits)
  from annotate_phrase_step[OF s] have
    u1: "used st1 = used st \<union> set (accepted out)" and d1: "set (accepted out) \<inter> used st = {}"
    by auto
  from Cons.IH[OF r] have
    len: "length os = length es" and
    u2: "used st' = used st1 \<union> (\<Union>out\<in>set os. set (accepted out))" and
    d2: "\<forall>k<length os. set (accepted (os ! k)) \<inter> used st1 = {}" and
    pw: "\<forall>k l. k < l \<and> l < length os \<longrightarrow> set (accepted (os ! k)) \<inter> set (accepted (os ! l)) = {}"
    by auto
  have a: "length outs = length (e # es)" using o len by simp
  have b: "used st' = used st \<union> (\<Union>out\<in>set outs. set (accepted out))"
    using u1 u2 o by auto
  have c: "\<forall>k<length outs. set (accepted (outs ! k)) \<inter> used st = {}"
  proof (intro allI impI)
    fix k assume "k < length outs"
    show "set (accepted (outs ! k)) \<inter> used st = {}"
    proof (cases k)
      case 0
      then show ?thesis using d1 o by simp
    next
      case (Suc k')
      then have "k' < length os" using \<open>k < length outs\<close> o by simp
      with d2 have "set (accepted (os ! k')) \<inter> used st1 = {}" by blast
      then show ?thesis using u1 o Suc by auto
    qed
  qed
  have d: "\<forall>k l. k < l \<and> l < length outs \<longrightarrow>
             set (accepted (outs ! k)) \<inter> set (accepted (outs ! l)) = {}"
  proof (intro allI impI)
    fix k l assume kl: "k < l \<and> l < length outs"
    then obtain l' where l: "l = Suc l'" "l' < length os" using o by (cases l) auto
    show "set (accepted (outs ! k)) \<inter> set (accepted (outs ! l)) = {}"
    proof (cases k)
      case 0
      from d2 l have "set (accepted (os ! l')) \<inter> used st1 = {}" by blast
      then show ?thesis using u1 o 0 l by auto
    next
      case (Suc k')
      then have "k' < l' \<and> l' < length os" using kl l by simp
      with pw have "set (accepted (os ! k')) \<inter> set (accepted (os ! l')) = {}" by blast
      then show ?thesis using o Suc l by simp
    qed
  qed
  from a b c d show ?case by blast
qed

text \<open>
  C1 (as amended). In the alignment pass of Annotation.py, whatever state it starts
  from: every phrase has an outcome; the set of used indices only grows, and at the end
  it is the set at the start together with the indices given to the phrases; no phrase
  is given an index that was used at the start; and the index sets given to two
  different phrases of the list are disjoint. On a window of well-formed rows the pass
  does return.
\<close>

theorem accepted_runs_disjoint:
  "(annotate_phrases tol rows st errors = Inr (outs, st') \<longrightarrow>
      length outs = length errors
      \<and> used st \<subseteq> used st'
      \<and> used st' = used st \<union> (\<Union>out\<in>set outs. set (accepted out))
      \<and> (\<forall>k<length outs. set (accepted (outs ! k)) \<inter> used st = {})
      \<and> (\<forall>k l. k < l \<and> l < length outs \<longrightarrow>
             set (accepted (outs ! k)) \<inter> set (accepted (outs ! l)) = {}))
   \<and> (wf_rows rows \<longrightarrow>
        (\<exists>outs st'. annotate_phrases tol rows st errors = Inr (outs, st')))"
proof (rule conjI)
  show "annotate_phrases tol rows st errors = Inr (outs, st') \<longrightarrow>
      length outs = length errors
      \<and> used st \<subseteq> used st'
      \<and> used st' = used st \<union> (\<Union>out\<in>set outs. set (accepted out))
      \<and> (\<forall>k<length outs. set (accepted (outs ! k)) \<inter> used st = {})
      \<and> (\<forall>k l. k < l \<and> l < length outs \<longrightarrow>
             set (accepted (outs ! k)) \<inter> set (accepted (outs ! l)) = {})"
    by (rule impI) (rule accepted_runs_invariant)
next
  show "wf_rows rows \<longrightarrow>
        (\<exists>outs st'. annotate_phrases tol rows st errors = Inr (outs, st'))"
    by (rule impI) (rule annotate_phrases_total)
qed

text \<open>
  The window \<open>a b a\<close> and the phrases \<open>b\<close>, \<open>ab\<close>, \<open>a\<close>: the first takes word 1, the
  second is refused (its winner needs word 1), the third takes word 0.
\<close>

theorem accepted_runs_disjoint_witness:
  "annotate_paragraph 2 [mk_word ''a'' 0 0 1, mk_word ''b'' 0 1 2, mk_word ''a'' 0 2 3]
       [''b'', ''ab'', ''a'']
     = Inr ([Direct [1],
             Partial_rejected \<lparr> sequence = [0, 1], match_text = ''ab'', is_full_match = True,
                cand_length = 2, sub_error = ''ab'', original_error = ''ab'' \<rparr>,
             Direct [0]],
            \<lparr> used = {0, 1},
              highlights = [([0, 0, 5, 5], ''Error Phrase: b''), ([0, 0, 5, 5], ''Error Phrase: a'')] \<rparr>)
   \<and> set (accepted (Direct [1])) \<inter> set (accepted (Direct [0])) = {}"
proof -
  let ?rows = "[mk_word ''a'' 0 0 1, mk_word ''b'' 0 1 2, mk_word ''a'' 0 2 3]"
  let ?rej = "Partial_rejected \<lparr> sequence = [0, 1], match_text = ''ab'', is_full_match = True,
                cand_length = 2, sub_error = ''ab'', original_error = ''ab'' \<rparr>"
  let ?st = "\<lparr> used = {0, 1},
              highlights = [([0, 0, 5, 5], ''Error Phrase: b''), ([0, 0, 5, 5], ''Error Phrase: a'')] \<rparr>"
  have run: "annotate_paragraph 2 ?rows [''b'', ''ab'', ''a''] = Inr ([Direct [1], ?rej, Direct [0]], ?st)"
    by code_simp
  then have "annotate_phrases 2 ?rows \<lparr> used = {}, highlights = [] \<rparr> [''b'', ''ab'', ''a'']
               = Inr ([Direct [1], ?rej, Direct [0]], ?st)"
    by (simp only: annotate_paragraph_def)
  with accepted_runs_disjoint[of 2 ?rows "\<lparr> used = {}, highlights = [] \<rparr>"
         "[''b'', ''ab'', ''a'']" "[Direct [1], ?rej, Direct [0]]" ?st]
  have "\<forall>k l. k < l \<and> l < length [Direct [1], ?rej, Direct [0]] \<longrightarrow>
          set (accepted ([Direct [1], ?rej, Direct [0]] ! k))
            \<inter> set (accepted ([Direct [1], ?rej, Direct [0]] ! l)) = {}"
    by blast
  then have "0 < (2::nat) \<and> 2 < length [Direct [1], ?rej, Direct [0]] \<longrightarrow>
          set (accepted ([Direct [1], ?rej, Direct [0]] ! 0))
            \<inter> set (accepted ([Direct [1], ?rej, Direct [0]] ! 2)) = {}"
    by blast
  then have "set (accepted (Direct [1])) \<inter> set (accepted (Direct [0])) = {}" by simp
  with run show ?thesis by blast
qed

text \<open>
  C1, counterexample: \<open>process_word_matches\<close> of the class keeps no set of used
  indices. On the one-word window \<open>ab\<close> the phrases \<open>a\<close> and \<open>b\<close> are both given word 0,
  and its box is highlighted twice.
\<close>

theorem class_phrases_share_a_word:
  "match_word_indices [mk_word ''ab'' 0 0 1] ''a'' = [0]
   \<and> match_word_indices [mk_word ''ab'' 0 0 1] ''b'' = [0]
   \<and> set (match_word_indices [mk_word ''ab'' 0 0 1] ''a'')
       \<inter> set (match_word_indices [mk_word ''ab'' 0 0 1] ''b'') \<noteq> {}
   \<and> process_word_matches 2 [mk_word ''ab'' 0 0 1] (PList [PStr ''a'', PStr ''b''])
        [0, 0, 9, 9] \<lparr> annotation_bboxes = [], annots = [] \<rparr>
      = Inr \<lparr> annotation_bboxes = [[0, 0, 5, 5], [0, 0, 5, 5]],
              annots = [([0, 0, 5, 5], EXACT_MATCH_COLOR, ''Error Phrase: a''),
                        ([0, 0, 5, 5], EXACT_MATCH_COLOR, ''Error Phrase: b'')] \<rparr>"
  by code_simp

text \<open>
  C9. When Step 3 is reached for a phrase (no direct match, or a direct match whose
  words are all used) and the winner chosen among its candidates shares an index with
  the used set, the phrase ends there: the state returned is the state given, with the
  same used set and no new highlight, whatever other candidates there were.
\<close>

theorem rejected_winner_no_annotation:
  assumes "error \<noteq> []"
    and "find_sub error (all_words_string rows) = None
         \<or> (\<exists>ms. find_sub error (all_words_string rows) = Some ms
               \<and> direct_scan ms (length error) (used st) 0 0 (map content rows) = [])"
    and "select_match (all_matches rows (used st) error) = Some m"
    and "set (sequence m) \<inter> used st \<noteq> {}"
  shows "annotate_phrase tol rows st error = Inr (Partial_rejected m, st)"
proof -
  from assms(4) have "list_ex (\<lambda>idx. idx \<in> used st) (sequence m)"
    by (auto simp: list_ex_iff)
  with assms(3) have "partial_phrase tol rows st error = Inr (Partial_rejected m, st)"
    by (simp add: partial_phrase_def)
  with assms(1,2) show ?thesis by (auto simp: annotate_phrase_def Let_def)
qed

text \<open>
  The window \<open>a b a\<close> with word 1 used and the phrase \<open>ab\<close>: the winner is the full
  match on words 0 and 1; the second candidate, word 2 alone, is free and is not taken.
\<close>

theorem rejected_winner_no_annotation_witness:
  "annotate_phrase 2 [mk_word ''a'' 0 0 1, mk_word ''b'' 0 1 2, mk_word ''a'' 0 2 3]
      \<lparr> used = {1}, highlights = [] \<rparr> ''ab''
    = Inr (Partial_rejected \<lparr> sequence = [0, 1], match_text = ''ab'', is_full_match = True,
                cand_length = 2, sub_error = ''ab'', original_error = ''ab'' \<rparr>,
           \<lparr> used = {1}, highlights = [] \<rparr>)
   \<and> all_matches [mk_word ''a'' 0 0 1, mk_word ''b'' 0 1 2, mk_word ''a'' 0 2 3] {1} ''ab''
    = [\<lparr> sequence = [0, 1], match_text = ''ab'', is_full_match = True,
                cand_length = 2, sub_error = ''ab'', original_error = ''ab'' \<rparr>,
       \<lparr> sequence = [2], match_text = ''a'', is_full_match = False,
                cand_length = 1, sub_error = ''ab'', original_error = ''ab'' \<rparr>]"
proof -
  let ?rows = "[mk_word ''a'' 0 0 1, mk_word ''b'' 0 1 2, mk_word ''a'' 0 2 3]"
  let ?st = "\<lparr> used = {1}, highlights = [] \<rparr>"
  let ?m = "\<lparr> sequence = [0, 1], match_text = ''ab'', is_full_match = True,
                cand_length = 2, sub_error = ''ab'', original_error = ''ab'' \<rparr>"
  let ?m2 = "\<lparr> sequence = [2], match_text = ''a'', is_full_match = False,
                cand_length = 1, sub_error = ''ab'', original_error = ''ab'' \<rparr>"
  have all: "all_matches ?rows {1} ''ab'' = [?m, ?m2]" by code_simp
  have h1: "''ab'' \<noteq> []" by simp
  have "find_sub ''ab'' (all_words_string ?rows) = None" by code_simp
  then have h2: "find_sub ''ab'' (all_words_string ?rows) = None
         \<or> (\<exists>ms. find_sub ''ab'' (all_words_string ?rows) = Some ms
               \<and> direct_scan ms (length ''ab'') (used ?st) 0 0 (map content ?rows) = [])"
    by (rule disjI1)
  have h3: "select_match (all_matches ?rows (used ?st) ''ab'') = Some ?m"
    by code_simp
  have h4: "set (sequence ?m) \<inter> used ?st \<noteq> {}" by simp
  from rejected_winner_no_annotation[OF h1 h2 h3 h4, of 2] all show ?thesis by blast
qed

section \<open>Step 2: the words of an exact match\<close>

lemma word_start_Cons: "word_start (w # ws) (Suc k) = length w + 1 + word_start ws k"
  by (induction k) auto

lemma word_end_Cons: "word_end (w # ws) (Suc k) = length w + 1 + word_end ws k"
  by (simp add: word_end_def word_start_Cons del: word_start.simps)

lemma direct_scan_mem:
  "i \<in> set (direct_scan ms len used_indices idx cp ws) \<longleftrightarrow>
     idx \<le> i \<and> i < idx + length ws \<and> i \<notin> used_indices
     \<and> cp + word_start ws (i - idx) < ms + len \<and> cp + word_end ws (i - idx) \<ge> ms"
proof (induction ws arbitrary: idx cp)
  case Nil
  then show ?case by simp
next
  case (Cons w ws)
  show ?case
  proof (cases "i \<le> idx")
    case True
    have "i \<notin> set (direct_scan ms len used_indices (Suc idx) (cp + length w + 1) ws)"
      using True by (simp add: Cons.IH)
    then show ?thesis using True
      by (auto simp: Let_def word_end_def)
  next
    case False
    then obtain k where k: "i - idx = Suc k" "i - Suc idx = k" by (cases "i - idx") auto
    have "cp + (length w + 1 + word_start ws k) < ms + len \<Longrightarrow> \<not> ms + len < cp + length w + 1"
      by simp
    then show ?thesis using False k
      by (auto simp: Let_def Cons.IH word_start_Cons word_end_Cons simp del: word_start.simps)
  qed
qed

lemma overlap_scan_mem:
  "i \<in> set (overlap_scan ms me idx cp ws) \<longleftrightarrow>
     idx \<le> i \<and> i < idx + length ws
     \<and> cp + word_start ws (i - idx) \<le> me \<and> cp + word_end ws (i - idx) \<ge> ms"
proof (induction ws arbitrary: idx cp)
  case Nil
  then show ?case by simp
next
  case (Cons w ws)
  show ?case
  proof (cases "i \<le> idx")
    case True
    have "i \<notin> set (overlap_scan ms me (Suc idx) (cp + length w + 1) ws)"
      using True by (simp add: Cons.IH)
    then show ?thesis using True
      by (auto simp: Let_def word_end_def)
  next
    case False
    then obtain k where k: "i - idx = Suc k" "i - Suc idx = k" by (cases "i - idx") auto
    then show ?thesis using False k
      by (auto simp: Let_def Cons.IH word_start_Cons word_end_Cons simp del: word_start.simps)
  qed
qed

lemma find_sub_occurs:
  "find_sub p s = Some k \<Longrightarrow> prefix p (drop k s) \<and> k \<le> length s"
proof (induction s arbitrary: k)
  case Nil
  then show ?case by (auto split: if_splits)
next
  case (Cons c s)
  show ?case
  proof (cases "prefix p (c # s)")
    case True
    then show ?thesis using Cons.prems by simp
  next
    case False
    then obtain k' where "find_sub p s = Some k'" "k = Suc k'" using Cons.prems by auto
    then show ?thesis using Cons.IH by simp
  qed
qed

lemma find_sub_leftmost:
  "find_sub p s = Some k \<Longrightarrow> j < k \<Longrightarrow> \<not> prefix p (drop j s)"
proof (induction s arbitrary: k j)
  case Nil
  then show ?case by (auto split: if_splits)
next
  case (Cons c s)
  show ?case
  proof (cases "prefix p (c # s)")
    case True
    then show ?thesis using Cons.prems by simp
  next
    case False
    then obtain k' where k': "find_sub p s = Some k'" "k = Suc k'" using Cons.prems by auto
    show ?thesis
    proof (cases j)
      case 0
      then show ?thesis using False by simp
    next
      case (Suc j')
      then show ?thesis using Cons.IH[OF k'(1), of j'] Cons.prems(2) k'(2) by simp
    qed
  qed
qed

lemma join_space_separator:
  "i < length ws \<Longrightarrow>
   word_end ws i \<le> length (join_space ws)
   \<and> (Suc i < length ws \<longrightarrow> word_end ws i < length (join_space ws)
                          \<and> join_space ws ! word_end ws i = CHR '' '')
   \<and> (Suc i = length ws \<longrightarrow> word_end ws i = length (join_space ws))"
proof (induction ws arbitrary: i rule: join_space.induct)
  case 1
  then show ?case by simp
next
  case (2 w)
  then show ?case by (simp add: word_end_def)
next
  case (3 w v ws)
  show ?case
  proof (cases i)
    case 0
    then show ?thesis by (simp add: word_end_def nth_append)
  next
    case (Suc k)
    then have "k < length (v # ws)" using "3.prems" by simp
    from "3.IH"[OF this] show ?thesis
      by (auto simp: Suc word_end_Cons nth_append)
  qed
qed

lemma prefix_drop_nth:
  assumes "prefix p (drop k s)" "p \<noteq> []"
  shows "k + length p \<le> length s \<and> (\<forall>j<length p. s ! (k + j) = p ! j)"
proof -
  from assms(1) obtain r where r: "drop k s = p @ r" by (auto simp: prefix_def)
  then have "length (drop k s) = length p + length r" by simp
  then have len: "length s - k = length p + length r" by simp
  have pos: "0 < length p" using assms(2) by simp
  have le: "k + length p \<le> length s" using len pos by linarith
  have "\<forall>j<length p. s ! (k + j) = p ! j"
  proof (intro allI impI)
    fix j assume j: "j < length p"
    then have "k + j < length s" using le by linarith
    then have "s ! (k + j) = drop k s ! j" by simp
    also have "\<dots> = p ! j" using r j by (simp add: nth_append)
    finally show "s ! (k + j) = p ! j" .
  qed
  with le show ?thesis by blast
qed

lemma no_word_ends_at_match_start:
  assumes "p \<noteq> []" "prefix p (drop ms (join_space ws))" "hd p \<noteq> CHR '' ''" "i < length ws"
  shows "word_end ws i \<noteq> ms"
proof
  assume e: "word_end ws i = ms"
  have pos: "0 < length p" using assms(1) by simp
  from prefix_drop_nth[OF assms(2) assms(1)]
  have le: "ms + length p \<le> length (join_space ws)"
    and nth: "\<forall>j<length p. join_space ws ! (ms + j) = p ! j" by blast+
  from le pos have lt: "ms < length (join_space ws)" by linarith
  from nth pos have "join_space ws ! (ms + 0) = p ! 0" by blast
  then have h: "join_space ws ! ms = hd p" using assms(1) by (simp add: hd_conv_nth)
  have sep: "join_space ws ! ms = CHR '' ''"
  proof (cases "Suc i < length ws")
    case True
    with join_space_separator[OF assms(4)] have "join_space ws ! word_end ws i = CHR '' ''"
      by blast
    then show ?thesis by (simp only: e)
  next
    case False
    with assms(4) have "Suc i = length ws" by linarith
    with join_space_separator[OF assms(4)] have "word_end ws i = length (join_space ws)"
      by blast
    with e lt show ?thesis by linarith
  qed
  from sep h assms(3) show False by simp
qed

lemma no_word_starts_at_match_end:
  assumes "p \<noteq> []" "prefix p (drop ms (join_space ws))" "last p \<noteq> CHR '' ''" "i < length ws"
  shows "word_start ws i \<noteq> ms + length p"
proof
  assume e: "word_start ws i = ms + length p"
  from assms(1) have pos: "0 < length p" by simp
  with e obtain k where k: "i = Suc k" by (cases i) auto
  have "word_start ws (Suc k) = word_end ws k + 1" by (simp add: word_end_def)
  moreover from e k have "word_start ws (Suc k) = ms + length p" by simp
  ultimately have we: "word_end ws k = ms + (length p - 1)" using pos by linarith
  from k assms(4) have kk: "k < length ws" and sk: "Suc k < length ws" by simp_all
  from join_space_separator[OF kk] sk have "join_space ws ! word_end ws k = CHR '' ''" by blast
  then have s1: "join_space ws ! (ms + (length p - 1)) = CHR '' ''" by (simp only: we)
  from prefix_drop_nth[OF assms(2) assms(1)]
  have nth: "\<forall>j<length p. join_space ws ! (ms + j) = p ! j" by blast
  from pos have "length p - 1 < length p" by linarith
  with nth have "join_space ws ! (ms + (length p - 1)) = p ! (length p - 1)" by blast
  with s1 have "p ! (length p - 1) = CHR '' ''" by simp
  then have "last p = CHR '' ''" using assms(1) by (simp add: last_conv_nth)
  with assms(3) show False by simp
qed

text \<open>
  Where the scans do select the overlapping words. Let the words of the window be
  non-empty and the phrase be non-empty, found in the joined string, and neither
  begin nor end with a space. Then \<open>ms\<close> is its leftmost occurrence; the scan of
  Annotation.py selects exactly the words not yet used whose character span overlaps
  the interval from \<open>ms\<close> to \<open>ms + len(error)\<close>; and the scan of the class, which has no
  used set, selects exactly the words whose span overlaps it.
\<close>

theorem exact_match_word_indices:
  assumes "\<forall>w\<in>set ws. w \<noteq> []" and "p \<noteq> []"
    and "find_sub p (join_space ws) = Some ms"
    and "hd p \<noteq> CHR '' ''" and "last p \<noteq> CHR '' ''"
  shows "prefix p (drop ms (join_space ws))
       \<and> (\<forall>j<ms. \<not> prefix p (drop j (join_space ws)))
       \<and> set (direct_scan ms (length p) used_indices 0 0 ws)
           = {i. i < length ws \<and> i \<notin> used_indices \<and> span_overlaps ws i ms (ms + length p)}
       \<and> set (overlap_scan ms (ms + length p) 0 0 ws)
           = {i. i < length ws \<and> span_overlaps ws i ms (ms + length p)}"
proof -
  have occ: "prefix p (drop ms (join_space ws))" using find_sub_occurs[OF assms(3)] by simp
  have left: "\<forall>j<ms. \<not> prefix p (drop j (join_space ws))"
    using find_sub_leftmost[OF assms(3)] by blast
  have pos: "0 < length p" using assms(2) by simp
  have key: "\<And>i. i < length ws \<Longrightarrow>
      word_start ws i < word_end ws i \<and> word_end ws i \<noteq> ms \<and> word_start ws i \<noteq> ms + length p"
  proof -
    fix i assume i: "i < length ws"
    then have "ws ! i \<noteq> []" using assms(1) by simp
    then have "word_start ws i < word_end ws i" by (simp add: word_end_def)
    with no_word_ends_at_match_start[OF assms(2) occ assms(4) i]
         no_word_starts_at_match_end[OF assms(2) occ assms(5) i]
    show "word_start ws i < word_end ws i \<and> word_end ws i \<noteq> ms \<and> word_start ws i \<noteq> ms + length p"
      by simp
  qed
  have d: "set (direct_scan ms (length p) used_indices 0 0 ws)
           = {i. i < length ws \<and> i \<notin> used_indices \<and> span_overlaps ws i ms (ms + length p)}"
  proof (intro set_eqI iffI)
    fix i assume "i \<in> set (direct_scan ms (length p) used_indices 0 0 ws)"
    then have m: "i < length ws" "i \<notin> used_indices" "word_start ws i < ms + length p"
        "ms \<le> word_end ws i"
      by (simp_all add: direct_scan_mem)
    with key[OF m(1)] pos show "i \<in> {i. i < length ws \<and> i \<notin> used_indices \<and> span_overlaps ws i ms (ms + length p)}"
      by (simp add: span_overlaps_def)
  next
    fix i assume "i \<in> {i. i < length ws \<and> i \<notin> used_indices \<and> span_overlaps ws i ms (ms + length p)}"
    then show "i \<in> set (direct_scan ms (length p) used_indices 0 0 ws)"
      by (simp add: direct_scan_mem span_overlaps_def)
  qed
  have c: "set (overlap_scan ms (ms + length p) 0 0 ws)
           = {i. i < length ws \<and> span_overlaps ws i ms (ms + length p)}"
  proof (intro set_eqI iffI)
    fix i assume "i \<in> set (overlap_scan ms (ms + length p) 0 0 ws)"
    then have m: "i < length ws" "word_start ws i \<le> ms + length p" "ms \<le> word_end ws i"
      by (simp_all add: overlap_scan_mem)
    with key[OF m(1)] pos show "i \<in> {i. i < length ws \<and> span_overlaps ws i ms (ms + length p)}"
      by (simp add: span_overlaps_def)
  next
    fix i assume "i \<in> {i. i < length ws \<and> span_overlaps ws i ms (ms + length p)}"
    then show "i \<in> set (overlap_scan ms (ms + length p) 0 0 ws)"
      by (simp add: overlap_scan_mem span_overlaps_def)
  qed
  from occ left d c show ?thesis by blast
qed

theorem exact_match_word_indices_witness:
  "find_sub ''quick brown'' (join_space [''The'', ''quick'', ''brown'', ''fox'']) = Some 4
   \<and> direct_scan 4 (length ''quick brown'') {2} 0 0 [''The'', ''quick'', ''brown'', ''fox''] = [1]
   \<and> overlap_scan 4 (4 + length ''quick brown'') 0 0 [''The'', ''quick'', ''brown'', ''fox''] = [1, 2]
   \<and> set (direct_scan 4 (length ''quick brown'') {2} 0 0 [''The'', ''quick'', ''brown'', ''fox''])
       = {i. i < length [''The'', ''quick'', ''brown'', ''fox''] \<and> i \<notin> {2}
             \<and> span_overlaps [''The'', ''quick'', ''brown'', ''fox''] i 4 (4 + length ''quick brown'')}
   \<and> set (overlap_scan 4 (4 + length ''quick brown'') 0 0 [''The'', ''quick'', ''brown'', ''fox''])
       = {i. i < length [''The'', ''quick'', ''brown'', ''fox'']
             \<and> span_overlaps [''The'', ''quick'', ''brown'', ''fox''] i 4 (4 + length ''quick brown'')}"
proof -
  let ?ws = "[''The'', ''quick'', ''brown'', ''fox'']"
  have h1: "\<forall>w\<in>set ?ws. w \<noteq> []" by simp
  have h2: "''quick brown'' \<noteq> []" by simp
  have h3: "find_sub ''quick brown'' (join_space ?ws) = Some 4" by code_simp
  have h4: "hd ''quick brown'' \<noteq> CHR '' ''" by simp
  have h5: "last ''quick brown'' \<noteq> CHR '' ''" by simp
  have e1: "direct_scan 4 (length ''quick brown'') {2} 0 0 ?ws = [1]" by code_simp
  have e2: "overlap_scan 4 (4 + length ''quick brown'') 0 0 ?ws = [1, 2]" by code_simp
  from exact_match_word_indices[OF h1 h2 h3 h4 h5, of "{2}"] h3 e1 e2 show ?thesis by blast
qed

text \<open>
  C3. The claim: the words selected for an exact match are exactly those whose
  character span overlaps the interval of the match (less the used ones). The scans,
  whose comments say "overlap", compare with inclusive bounds and select a word that
  only touches the match. On the window \<open>a b\<close> the phrase \<open>" b"\<close> occurs at offset 1;
  word 0 occupies offset 0 alone and shares no offset with the match, yet both scans
  select it. The phrase \<open>"a "\<close> occurs at offset 0 and ends at offset 2, where word 1
  starts: the scan of the class selects word 1, which does not overlap the match,
  and the scan of Annotation.py, strict on that side, does not.
\<close>

theorem touching_word_is_selected:
  "find_sub '' b'' (join_space [''a'', ''b'']) = Some 1
   \<and> direct_scan 1 (length '' b'') {} 0 0 [''a'', ''b''] = [0, 1]
   \<and> overlap_scan 1 (1 + length '' b'') 0 0 [''a'', ''b''] = [0, 1]
   \<and> \<not> span_overlaps [''a'', ''b''] 0 1 (1 + length '' b'')
   \<and> find_sub ''a '' (join_space [''a'', ''b'']) = Some 0
   \<and> overlap_scan 0 (0 + length ''a '') 0 0 [''a'', ''b''] = [0, 1]
   \<and> direct_scan 0 (length ''a '') {} 0 0 [''a'', ''b''] = [0]
   \<and> \<not> span_overlaps [''a'', ''b''] 1 0 (0 + length ''a '')"
  by code_simp

section \<open>The class: highlighting the matched words\<close>

lemma overlap_scan_range:
  "i \<in> set (overlap_scan ms me idx cp ws) \<Longrightarrow> idx \<le> i \<and> i < idx + length ws"
  by (simp add: overlap_scan_mem)

lemma highlight_matched_words_empty:
  "highlight_matched_words tol rows [] error st = Inl IndexError"
  by (simp add: highlight_matched_words_def loc_boxes_def then_do_def line_rects_empty)

lemma highlight_matched_words_total:
  assumes "idxs \<noteq> []" "\<And>i. i \<in> set idxs \<Longrightarrow> i < length rows" "wf_rows rows"
  shows "\<exists>rects. rects \<noteq> [] \<and> highlight_matched_words tol rows idxs error st
           = Inr \<lparr> annotation_bboxes = annotation_bboxes st @ rects,
                   annots = annots st
                     @ map (\<lambda>r. (r, EXACT_MATCH_COLOR, ''Error Phrase: '' @ error)) rects \<rparr>"
proof -
  have l: "loc_boxes rows idxs = Inr (map (\<lambda>i. clipbounds (rows ! i)) idxs)"
    using assms(2) by (rule loc_boxes_total)
  have "wf_boxes (map (\<lambda>i. clipbounds (rows ! i)) idxs)"
    using assms(2,3) by (auto simp: wf_rows_def wf_boxes_def list_all_iff)
  moreover have "map (\<lambda>i. clipbounds (rows ! i)) idxs \<noteq> []" using assms(1) by simp
  ultimately obtain rects where
    "line_rects tol (map (\<lambda>i. clipbounds (rows ! i)) idxs) = Inr rects" "rects \<noteq> []"
    using line_rects_total by blast
  then show ?thesis by (auto simp: highlight_matched_words_def then_do_def l)
qed

lemma match_errors_total:
  "wf_rows rows \<Longrightarrow> \<exists>found st'. match_errors tol rows matches_found st errors = Inr (found, st')"
proof (induction errors arbitrary: matches_found st)
  case Nil
  then show ?case by simp
next
  case (Cons e es)
  show ?case
  proof (cases e)
    case (PStr error)
    show ?thesis
    proof (cases "error = []")
      case True
      then show ?thesis using PStr Cons by simp
    next
      case ne: False
      show ?thesis
      proof (cases "find_sub error (all_words_string rows)")
        case None
        then show ?thesis using PStr ne Cons by simp
      next
        case (Some ms)
        let ?idxs = "overlap_scan ms (ms + length error) 0 0 (map content rows)"
        show ?thesis
        proof (cases "?idxs = []")
          case True
          then show ?thesis using PStr ne Some Cons by (simp add: Let_def)
        next
          case False
          have rng: "\<And>i. i \<in> set ?idxs \<Longrightarrow> i < length rows"
            using overlap_scan_range[of _ ms "ms + length error" 0 0 "map content rows"] by simp
          from highlight_matched_words_total[OF False rng Cons.prems, of tol error st]
          obtain st1 where "highlight_matched_words tol rows ?idxs error st = Inr st1" by blast
          then show ?thesis using PStr ne Some False Cons.IH[OF Cons.prems, of True st1]
            by (simp add: Let_def)
        qed
      qed
    qed
  qed (use Cons in simp_all)
qed

lemma within_body_true_length:
  "within_body b c = Inr True \<Longrightarrow> \<exists>xs. b = BList xs \<and> 4 \<le> length xs"
  by (cases b)
     (auto simp: within_body_def and_then_def cmp_items_def val_item_def item_def
           split: sum.splits if_splits)

lemma is_within_true_length:
  "is_within bbox container = Inr True \<Longrightarrow> \<exists>b. bbox = BList b \<and> 4 \<le> length b"
  by (auto simp: is_within_def dest: within_body_true_length split: if_splits)

lemma select_window_wf:
  "select_window filename page para_bbox table = Inr rows \<Longrightarrow> wf_rows rows"
proof (induction table arbitrary: rows)
  case Nil
  then show ?case by (simp add: wf_rows_def wf_boxes_def)
next
  case (Cons w ws)
  show ?case
  proof (cases "file_name w = filename \<and> word_page w = page")
    case False
    then show ?thesis using Cons by auto
  next
    case True
    then obtain inside rest where
      i: "is_within (word_clipbounds w) (BList para_bbox) = Inr inside"
      and r: "select_window filename page para_bbox ws = Inr rest"
      and rows: "rows = (if inside
                       then \<lparr> content = word_content w, clipbounds = the_box (word_clipbounds w),
                               spans = NaN, next_word_span = NaN \<rparr> # rest
                       else rest)"
      using Cons.prems by (auto split: sum.splits)
    have wr: "wf_rows rest" using Cons.IH[OF r] .
    show ?thesis
    proof (cases inside)
      case False
      then show ?thesis using rows wr by simp
    next
      case tr: True
      with i have "is_within (word_clipbounds w) (BList para_bbox) = Inr True" by simp
      from is_within_true_length[OF this] obtain b where
        "word_clipbounds w = BList b" "4 \<le> length b"
        by blast
      then show ?thesis using rows wr tr by (simp add: wf_rows_def wf_boxes_def)
    qed
  qed
qed

text \<open>
  C10. \<open>highlight_matched_words\<close> raises \<open>IndexError\<close> on an empty list of indices,
  at \<open>phrase_bboxes[0]\<close>. Given a non-empty list of indices of rows of the window, and
  rows whose boxes have four coordinates, it returns: every subscript it takes is in
  range. The loop of \<open>process_word_matches\<close>, which calls it only for a non-empty list,
  returns on every list of phrases and so never reaches that \<open>IndexError\<close>; and the
  rows of a window selected by \<open>is_within\<close> do have four coordinates.
\<close>

theorem highlight_indices_in_range:
  "highlight_matched_words tol rows [] error st = Inl IndexError
   \<and> (idxs \<noteq> [] \<and> (\<forall>i\<in>set idxs. i < length rows) \<and> wf_rows rows \<longrightarrow>
        (\<exists>st'. highlight_matched_words tol rows idxs error st = Inr st'))
   \<and> (wf_rows rows \<longrightarrow>
        (\<exists>found st'. match_errors tol rows matches_found st errors = Inr (found, st')))
   \<and> (select_window filename page para_bbox table = Inr window \<longrightarrow> wf_rows window)"
proof (intro conjI impI)
  show "highlight_matched_words tol rows [] error st = Inl IndexError"
    by (rule highlight_matched_words_empty)
next
  assume a: "idxs \<noteq> [] \<and> (\<forall>i\<in>set idxs. i < length rows) \<and> wf_rows rows"
  then have "\<And>i. i \<in> set idxs \<Longrightarrow> i < length rows" by blast
  from highlight_matched_words_total[OF _ this] a
  show "\<exists>st'. highlight_matched_words tol rows idxs error st = Inr st'" by blast
next
  assume "wf_rows rows"
  then show "\<exists>found st'. match_errors tol rows matches_found st errors = Inr (found, st')"
    by (rule match_errors_total)
next
  assume "select_window filename page para_bbox table = Inr window"
  then show "wf_rows window" by (rule select_window_wf)
qed

theorem highlight_indices_in_range_witness:
  "highlight_matched_words 2
      [mk_word ''The'' 10 0 1, mk_word ''quick'' 10 1 2, mk_word ''brown'' 10 2 3,
       mk_word ''fox'' 40 3 4] [] ''brown fox'' \<lparr> annotation_bboxes = [], annots = [] \<rparr>
     = Inl IndexError
   \<and> highlight_matched_words 2
      [mk_word ''The'' 10 0 1, mk_word ''quick'' 10 1 2, mk_word ''brown'' 10 2 3,
       mk_word ''fox'' 40 3 4] [2, 3] ''brown fox'' \<lparr> annotation_bboxes = [], annots = [] \<rparr>
     = Inr \<lparr> annotation_bboxes = [[0, 10, 5, 15], [0, 40, 5, 45]],
             annots = [([0, 10, 5, 15], EXACT_MATCH_COLOR, ''Error Phrase: brown fox''),
                       ([0, 40, 5, 45], EXACT_MATCH_COLOR, ''Error Phrase: brown fox'')] \<rparr>
   \<and> (\<exists>found st'. match_errors 2
      [mk_word ''The'' 10 0 1, mk_word ''quick'' 10 1 2, mk_word ''brown'' 10 2 3,
       mk_word ''fox'' 40 3 4] False \<lparr> annotation_bboxes = [], annots = [] \<rparr>
       [PStr ''brown fox'', PInt 3, PStr ''teh''] = Inr (found, st'))"
proof -
  let ?rows = "[mk_word ''The'' 10 0 1, mk_word ''quick'' 10 1 2, mk_word ''brown'' 10 2 3,
                mk_word ''fox'' 40 3 4]"
  let ?st = "\<lparr> annotation_bboxes = [], annots = [] \<rparr>"
  have wf: "wf_rows ?rows" by code_simp
  have e: "highlight_matched_words 2 ?rows [2, 3] ''brown fox'' ?st
     = Inr \<lparr> annotation_bboxes = [[0, 10, 5, 15], [0, 40, 5, 45]],
             annots = [([0, 10, 5, 15], EXACT_MATCH_COLOR, ''Error Phrase: brown fox''),
                       ([0, 40, 5, 45], EXACT_MATCH_COLOR, ''Error Phrase: brown fox'')] \<rparr>"
    by code_simp
  from highlight_indices_in_range[where tol = 2 and rows = ?rows and error = "''brown fox''"
         and st = ?st and idxs = "[2, 3]" and matches_found = False
         and errors = "[PStr ''brown fox'', PInt 3, PStr ''teh'']"] wf e
  show ?thesis by blast
qed

section \<open>The class: the fallback on the whole paragraph\<close>

lemma some_word_covers_offset:
  "ws \<noteq> [] \<Longrightarrow> ms \<le> length (join_space ws) \<Longrightarrow>
   \<exists>i<length ws. word_start ws i \<le> ms \<and> ms \<le> word_end ws i"
proof (induction ws arbitrary: ms rule: join_space.induct)
  case 1
  then show ?case by simp
next
  case (2 w)
  then show ?case by (simp add: word_end_def)
next
  case (3 w v ws)
  show ?case
  proof (cases "ms \<le> length w")
    case True
    then have "word_start (w # v # ws) 0 \<le> ms \<and> ms \<le> word_end (w # v # ws) 0"
      by (simp add: word_end_def)
    then show ?thesis by (intro exI[of _ 0]) simp
  next
    case False
    then have "ms - (length w + 1) \<le> length (join_space (v # ws))" using "3.prems"(2) by simp
    from "3.IH"[OF _ this] obtain i where i: "i < length (v # ws)"
      "word_start (v # ws) i \<le> ms - (length w + 1)" "ms - (length w + 1) \<le> word_end (v # ws) i"
      by auto
    have "word_start (w # v # ws) (Suc i) \<le> ms \<and> ms \<le> word_end (w # v # ws) (Suc i)"
      using i False unfolding word_start_Cons word_end_Cons by linarith
    then show ?thesis using i(1) by (intro exI[of _ "Suc i"]) simp
  qed
qed

lemma overlap_scan_nonempty:
  assumes "ws \<noteq> []" "ms \<le> length (join_space ws)" "ms \<le> me"
  shows "overlap_scan ms me 0 0 ws \<noteq> []"
proof -
  from some_word_covers_offset[OF assms(1,2)] obtain i where
    "i < length ws" "word_start ws i \<le> ms" "ms \<le> word_end ws i" by blast
  with assms(3) have "i \<in> set (overlap_scan ms me 0 0 ws)" by (simp add: overlap_scan_mem)
  then show ?thesis by auto
qed

lemma match_word_indices_empty_iff:
  "rows \<noteq> [] \<Longrightarrow>
   (match_word_indices rows p = []) = (find_sub p (all_words_string rows) = None)"
proof (cases "find_sub p (all_words_string rows)")
  case None
  then show ?thesis by (simp add: match_word_indices_def)
next
  case (Some ms)
  assume "rows \<noteq> []"
  then have "map content rows \<noteq> []" by simp
  moreover have "ms \<le> length (join_space (map content rows))"
    using find_sub_occurs[OF Some[unfolded all_words_string_def]] by simp
  ultimately have "overlap_scan ms (ms + length p) 0 0 (map content rows) \<noteq> []"
    by (intro overlap_scan_nonempty) simp_all
  then show ?thesis using Some by (simp add: match_word_indices_def)
qed

lemma match_errors_no_match:
  "(\<And>p. PStr p \<in> set errors \<Longrightarrow> p \<noteq> [] \<Longrightarrow> find_sub p (all_words_string rows) = None) \<Longrightarrow>
   match_errors tol rows matches_found st errors = Inr (matches_found, st)"
proof (induction errors)
  case Nil
  then show ?case by simp
next
  case (Cons e es)
  have ih: "match_errors tol rows matches_found st es = Inr (matches_found, st)"
    using Cons by simp
  show ?case
  proof (cases e)
    case (PStr p)
    then show ?thesis using ih Cons.prems[of p] by (cases "p = []") simp_all
  qed (use ih in simp_all)
qed

lemma map_err_str_of: "map_err str_of (map PStr ps) = Inr ps"
  by (induction ps) simp_all

lemma join_errors_strings:
  "join_errors (PList (map PStr ps)) = Inr (join_sep '', '' ps)"
  by (simp add: join_errors_def then_do_def map_err_str_of)

lemma fallback_annotation:
  assumes box: "para_clipbounds row = BList [x0, y0, x1, y1]"
    and page: "page_height (page_number row - 1) = Some h"
    and cell: "error_phrase row \<noteq> Empty"
    and parsed: "parse_error_phrases lit (cell_value (error_phrase row)) = PList (map PStr ps)"
    and some: "ps \<noteq> []"
    and window: "select_window filename (page_number row)
                   [fsub x0 buffer, fsub (fsub h y0) buffer,
                    fadd x1 buffer, fadd (fsub h y1) buffer] df_words
                 = Inr rows"
    and nomatch: "\<forall>p\<in>set ps. p \<noteq> [] \<longrightarrow> match_word_indices rows p = []"
    and rect: "rect_accepted [fsub x0 buffer, fsub (fsub h y0) buffer,
                              fadd x1 buffer, fadd (fsub h y1) buffer]"
  shows "process_paragraph lit fsub fadd buffer tol page_height df_words row filename
           = Inr \<lparr> annotation_bboxes =
                     [[fsub x0 buffer, fsub (fsub h y0) buffer,
                       fadd x1 buffer, fadd (fsub h y1) buffer]],
                   annots =
                     [([fsub x0 buffer, fsub (fsub h y0) buffer,
                        fadd x1 buffer, fadd (fsub h y1) buffer],
                       POTENTIAL_ERROR_COLOR,
                       ''Potential Errors: '' @ join_sep '', '' ps)] \<rparr>"
proof -
  let ?bb = "[fsub x0 buffer, fsub (fsub h y0) buffer, fadd x1 buffer, fadd (fsub h y1) buffer]"
  let ?st0 = "\<lparr> annotation_bboxes = [], annots = [] \<rparr>"
  let ?es = "map PStr ps"
  let ?res = "\<lparr> annotation_bboxes = [?bb],
               annots = [(?bb, POTENTIAL_ERROR_COLOR,
                          ''Potential Errors: '' @ join_sep '', '' ps)] \<rparr>"
  have nb: "\<not> not_box (para_clipbounds row)" using box by (simp add: not_box_def)
  have conv: "convert_and_buffer fsub fadd buffer h (para_clipbounds row) = Inr ?bb"
    using box by (simp add: convert_and_buffer_def then_do_def val_item_def item_def)
  have tr: "truthy (PList ?es)" using some by simp
  have hp: "highlight_paragraph ?bb (PList ?es) ?st0 = Inr ?res"
    using rect by (simp add: highlight_paragraph_def then_do_def join_errors_strings)
  have body: "(if rows = [] then highlight_paragraph ?bb (PList ?es) ?st0
               else process_word_matches tol rows (PList ?es) ?bb ?st0) = Inr ?res"
  proof (cases "rows = []")
    case True
    then show ?thesis using hp by simp
  next
    case False
    have nf: "find_sub p (all_words_string rows) = None"
      if "PStr p \<in> set ?es" "p \<noteq> []" for p
    proof -
      from that(1) have "p \<in> set ps" by auto
      with nomatch that(2) have "match_word_indices rows p = []" by blast
      then show ?thesis using match_word_indices_empty_iff[OF False] by blast
    qed
    have "match_errors tol rows False ?st0 ?es = Inr (False, ?st0)"
      by (rule match_errors_no_match) (rule nf)
    then have "process_word_matches tol rows (PList ?es) ?bb ?st0
                 = highlight_paragraph ?bb (PList ?es) ?st0"
      by (simp add: process_word_matches_def then_do_def)
    then show ?thesis using False hp by simp
  qed
  have pi: "page_number row - 1 + 1 = page_number row" by simp
  show ?thesis
    unfolding process_paragraph_def Let_def
    using nb cell page conv parsed tr window body
    by (cases "rows = []") (simp_all add: then_do_def pi)
qed

lemma skipped_paragraph:
  assumes "not_box (para_clipbounds row) \<or> page_height (page_number row - 1) = None"
  shows "process_paragraph lit fsub fadd buffer tol page_height df_words row filename
           = Inr \<lparr> annotation_bboxes = [], annots = [] \<rparr>"
  using assms by (auto simp: process_paragraph_def Let_def)

text \<open>
  C4 (as amended). Take a paragraph whose box has four coordinates, whose page exists
  in the document, and whose error-phrase cell parses to a non-empty list of strings.
  If the word window is selected without an exception, no non-empty phrase is given
  any word of it (in particular if the window is empty), and the converted and
  buffered box is a rectangle the PDF library accepts, then the paragraph is recorded
  with exactly one box, its converted and buffered box, and exactly one annotation is
  asked of the page, on that box and labelled with the phrases. A paragraph whose box
  is absent, or whose page index is out of range, is left with no box and no
  annotation.
\<close>

theorem fallback_single_annotation:
  "(para_clipbounds row = BList [x0, y0, x1, y1]
      \<and> page_height (page_number row - 1) = Some h
      \<and> error_phrase row \<noteq> Empty
      \<and> parse_error_phrases lit (cell_value (error_phrase row)) = PList (map PStr ps)
      \<and> ps \<noteq> []
      \<and> select_window filename (page_number row)
            [fsub x0 buffer, fsub (fsub h y0) buffer,
             fadd x1 buffer, fadd (fsub h y1) buffer] df_words = Inr rows
      \<and> (\<forall>p\<in>set ps. p \<noteq> [] \<longrightarrow> match_word_indices rows p = [])
      \<and> rect_accepted [fsub x0 buffer, fsub (fsub h y0) buffer,
                        fadd x1 buffer, fadd (fsub h y1) buffer]
    \<longrightarrow> process_paragraph lit fsub fadd buffer tol page_height df_words row filename
          = Inr \<lparr> annotation_bboxes =
                    [[fsub x0 buffer, fsub (fsub h y0) buffer,
                      fadd x1 buffer, fadd (fsub h y1) buffer]],
                  annots =
                    [([fsub x0 buffer, fsub (fsub h y0) buffer,
                       fadd x1 buffer, fadd (fsub h y1) buffer],
                      POTENTIAL_ERROR_COLOR,
                      ''Potential Errors: '' @ join_sep '', '' ps)] \<rparr>)
   \<and> (not_box (para_clipbounds row)
    \<longrightarrow> process_paragraph lit fsub fadd buffer tol page_height df_words row filename
          = Inr \<lparr> annotation_bboxes = [], annots = [] \<rparr>)
   \<and> (page_height (page_number row - 1) = None
    \<longrightarrow> process_paragraph lit fsub fadd buffer tol page_height df_words row filename
          = Inr \<lparr> annotation_bboxes = [], annots = [] \<rparr>)"
proof (rule conjI)
  show "para_clipbounds row = BList [x0, y0, x1, y1]
      \<and> page_height (page_number row - 1) = Some h
      \<and> error_phrase row \<noteq> Empty
      \<and> parse_error_phrases lit (cell_value (error_phrase row)) = PList (map PStr ps)
      \<and> ps \<noteq> []
      \<and> select_window filename (page_number row)
            [fsub x0 buffer, fsub (fsub h y0) buffer,
             fadd x1 buffer, fadd (fsub h y1) buffer] df_words = Inr rows
      \<and> (\<forall>p\<in>set ps. p \<noteq> [] \<longrightarrow> match_word_indices rows p = [])
      \<and> rect_accepted [fsub x0 buffer, fsub (fsub h y0) buffer,
                        fadd x1 buffer, fadd (fsub h y1) buffer]
    \<longrightarrow> process_paragraph lit fsub fadd buffer tol page_height df_words row filename
          = Inr \<lparr> annotation_bboxes =
                    [[fsub x0 buffer, fsub (fsub h y0) buffer,
                      fadd x1 buffer, fadd (fsub h y1) buffer]],
                  annots =
                    [([fsub x0 buffer, fsub (fsub h y0) buffer,
                       fadd x1 buffer, fadd (fsub h y1) buffer],
                      POTENTIAL_ERROR_COLOR,
                      ''Potential Errors: '' @ join_sep '', '' ps)] \<rparr>"
    using fallback_annotation[of row x0 y0 x1 y1 page_height h lit ps filename fsub buffer fadd
            df_words rows tol]
    by blast
next
  show "(not_box (para_clipbounds row)
    \<longrightarrow> process_paragraph lit fsub fadd buffer tol page_height df_words row filename
          = Inr \<lparr> annotation_bboxes = [], annots = [] \<rparr>)
   \<and> (page_height (page_number row - 1) = None
    \<longrightarrow> process_paragraph lit fsub fadd buffer tol page_height df_words row filename
          = Inr \<lparr> annotation_bboxes = [], annots = [] \<rparr>)"
    using skipped_paragraph[of row page_height lit fsub fadd buffer tol df_words filename]
    by blast
qed

text \<open>
  The phrase \<open>quikc\<close> over a window holding the word \<open>quick\<close>, and over an empty
  window: one box and one annotation, on the converted and buffered box.
\<close>

theorem fallback_single_annotation_witness:
  "process_paragraph not_a_literal (-) (+) 5 2 (single_page 100)
     [\<lparr> file_name = ''f.pdf'', word_page = 1, word_clipbounds = BList [10, 20, 30, 30],
         word_content = ''quick'' \<rparr>]
     \<lparr> page_number = 1, para_clipbounds = BList [0, 90, 50, 60], error_phrase = Text ''quikc'' \<rparr>
     ''f.pdf''
   = Inr \<lparr> annotation_bboxes = [[0 - 5, 100 - 90 - 5, 50 + 5, 100 - 60 + 5]],
           annots = [([0 - 5, 100 - 90 - 5, 50 + 5, 100 - 60 + 5], POTENTIAL_ERROR_COLOR,
                      ''Potential Errors: '' @ join_sep '', '' [''quikc''])] \<rparr>
   \<and> process_paragraph not_a_literal (-) (+) 5 2 (single_page 100) []
     \<lparr> page_number = 1, para_clipbounds = BList [0, 90, 50, 60], error_phrase = Text ''quikc'' \<rparr>
     ''f.pdf''
   = Inr \<lparr> annotation_bboxes = [[0 - 5, 100 - 90 - 5, 50 + 5, 100 - 60 + 5]],
           annots = [([0 - 5, 100 - 90 - 5, 50 + 5, 100 - 60 + 5], POTENTIAL_ERROR_COLOR,
                      ''Potential Errors: '' @ join_sep '', '' [''quikc''])] \<rparr>"
proof -
  let ?row = "\<lparr> page_number = 1, para_clipbounds = BList [0, 90, 50, 60],
                error_phrase = Text ''quikc'' \<rparr>"
  let ?df = "[\<lparr> file_name = ''f.pdf'', word_page = 1, word_clipbounds = BList [10, 20, 30, 30],
                word_content = ''quick'' \<rparr>]"
  let ?rows = "[\<lparr> content = ''quick'', clipbounds = [10, 20, 30, 30], spans = NaN,
                  next_word_span = NaN \<rparr>] :: unit word_row list"
  let ?ps = "[''quikc'']"
  have box: "para_clipbounds ?row = BList [0, 90, 50, 60]" by simp
  have page: "single_page 100 (page_number ?row - 1) = Some 100" by (simp add: single_page_def)
  have cell: "error_phrase ?row \<noteq> Empty" by simp
  have parsed: "parse_error_phrases not_a_literal (cell_value (error_phrase ?row))
                  = PList (map PStr ?ps)"
    by (simp add: parse_error_phrases_def not_a_literal_def)
  have some: "?ps \<noteq> []" by simp
  have window: "select_window ''f.pdf'' (page_number ?row)
                   [0 - 5, 100 - 90 - 5, 50 + 5, 100 - 60 + 5] ?df = Inr ?rows"
    by code_simp
  have window0: "select_window ''f.pdf'' (page_number ?row)
                   [0 - 5, 100 - 90 - 5, 50 + 5, 100 - 60 + 5] [] = Inr []"
    by simp
  have "match_word_indices ?rows ''quikc'' = []" by code_simp
  then have nomatch: "\<forall>p\<in>set ?ps. p \<noteq> [] \<longrightarrow> match_word_indices ?rows p = []"
    by simp
  have nomatch0: "\<forall>p\<in>set ?ps. p \<noteq> []
                     \<longrightarrow> match_word_indices ([] :: unit word_row list) p = []"
    by (simp add: match_word_indices_def all_words_string_def)
  have rect: "rect_accepted [0 - 5, 100 - 90 - 5, 50 + 5, 100 - 60 + (5 :: real)]"
    by (simp add: rect_accepted_def)
  from fallback_single_annotation
         [where page_height = "single_page 100" and tol = 2 and row = ?row and lit = not_a_literal
            and fsub = "(-)" and fadd = "(+)" and buffer = 5 and h = 100 and ps = ?ps
            and ?x0.0 = 0 and ?y0.0 = 90 and ?x1.0 = 50 and ?y1.0 = 60
            and filename = "''f.pdf''" and df_words = ?df and rows = ?rows]
       fallback_single_annotation
         [where page_height = "single_page 100" and tol = 2 and row = ?row and lit = not_a_literal
            and fsub = "(-)" and fadd = "(+)" and buffer = 5 and h = 100 and ps = ?ps
            and ?x0.0 = 0 and ?y0.0 = 90 and ?x1.0 = 50 and ?y1.0 = 60
            and filename = "''f.pdf''" and df_words = "[]" and rows = "[]"]
       box page cell parsed some window window0 nomatch nomatch0 rect
  show ?thesis by blast
qed

text \<open>
  C4, counterexample. A paragraph with the phrase \<open>quikc\<close> on page 2 of a document of
  one page: \<open>pdf_document[page_index]\<close> raises \<open>IndexError\<close>, the method returns, and
  the paragraph, for which no phrase was matched, is left with no annotation.
\<close>

theorem missing_page_no_annotation:
  "process_paragraph not_a_literal (-) (+) 5 2 (single_page 100)
     [\<lparr> file_name = ''f.pdf'', word_page = 2, word_clipbounds = BList [10, 20, 30, 30],
         word_content = ''quick'' \<rparr>]
     \<lparr> page_number = 2, para_clipbounds = BList [0, 90, 50, 60], error_phrase = Text ''quikc'' \<rparr>
     ''f.pdf''
   = Inr \<lparr> annotation_bboxes = [], annots = [] \<rparr>
   \<and> parse_error_phrases not_a_literal (cell_value (Text ''quikc'')) = PList [PStr ''quikc'']"
  by (simp add: process_paragraph_def not_box_def single_page_def parse_error_phrases_def
        not_a_literal_def)

text \<open>
  A paragraph box given with its two heights in the other order: the converted and
  buffered box is inverted, the PDF library refuses it, and nothing is stored.
\<close>

lemma inverted_box_is_refused:
  "convert_and_buffer (-) (+) 5 100 (BList [0, 60, 50, 90]) = Inr [- 5, 35, 55, 15]"
  "process_paragraph not_a_literal (-) (+) 5 2 (single_page 100) []
     \<lparr> page_number = 1, para_clipbounds = BList [0, 60, 50, 90], error_phrase = Text ''quikc'' \<rparr>
     ''f.pdf''
   = Inl ValueError"
  by (simp_all add: process_paragraph_def not_box_def single_page_def parse_error_phrases_def
        not_a_literal_def convert_and_buffer_def then_do_def val_item_def item_def
        highlight_paragraph_def rect_accepted_def)

section \<open>Step 2 before Step 3\<close>

text \<open>
  C2 (as amended). For a non-empty phrase found in the joined string of a window of
  well-formed rows: if some word overlapping the leftmost occurrence is not yet used,
  the phrase is settled by the direct match, which takes the words the scan selects,
  and Step 3 is not entered; if the scan selects no word (all of them are used), the
  phrase goes on to Step 3. In the class, which has no Step 3 and no used set, the
  exact match of such a phrase always selects a word of a non-empty window.
\<close>

theorem direct_match_precedence:
  assumes "error \<noteq> []"
    and "find_sub error (all_words_string rows) = Some ms"
    and "wf_rows rows"
  shows "((\<exists>i<length rows. i \<notin> used st
             \<and> span_overlaps (map content rows) i ms (ms + length error)) \<longrightarrow>
          (\<exists>st'. annotate_phrase tol rows st error
                   = Inr (Direct (direct_scan ms (length error) (used st) 0 0 (map content rows)), st')
              \<and> direct_scan ms (length error) (used st) 0 0 (map content rows) \<noteq> []
              \<and> used st' = used st
                   \<union> set (direct_scan ms (length error) (used st) 0 0 (map content rows))))
       \<and> (direct_scan ms (length error) (used st) 0 0 (map content rows) = [] \<longrightarrow>
            annotate_phrase tol rows st error = partial_phrase tol rows st error)
       \<and> (rows \<noteq> [] \<longrightarrow> match_word_indices rows error \<noteq> [])"
proof (intro conjI impI)
  assume "rows \<noteq> []"
  from match_word_indices_empty_iff[OF this, of error] assms(2)
  show "match_word_indices rows error \<noteq> []" by simp
next
  let ?idxs = "direct_scan ms (length error) (used st) 0 0 (map content rows)"
  assume "?idxs = []"
  with assms(1,2) show "annotate_phrase tol rows st error = partial_phrase tol rows st error"
    by (simp add: annotate_phrase_def Let_def)
next
  let ?idxs = "direct_scan ms (length error) (used st) 0 0 (map content rows)"
  assume "\<exists>i<length rows. i \<notin> used st \<and> span_overlaps (map content rows) i ms (ms + length error)"
  then obtain i where i: "i < length rows" "i \<notin> used st"
      "span_overlaps (map content rows) i ms (ms + length error)" by blast
  then have "i \<in> set ?idxs" by (simp add: direct_scan_mem span_overlaps_def)
  then have ne: "?idxs \<noteq> []" by auto
  have rng: "\<And>k. k \<in> set ?idxs \<Longrightarrow> k < length rows"
    using direct_scan_range[of _ ms "length error" "used st" 0 0 "map content rows"] by simp
  from place_total[OF ne rng assms(3), of tol error st] obtain hs where
    p: "place tol rows ?idxs error st
          = Inr (st \<lparr> highlights := highlights st @ hs, used := used st \<union> set ?idxs \<rparr>)"
    by blast
  let ?st' = "st \<lparr> highlights := highlights st @ hs, used := used st \<union> set ?idxs \<rparr>"
  have "annotate_phrase tol rows st error = Inr (Direct ?idxs, ?st')"
    using assms(1,2) ne p by (simp add: annotate_phrase_def Let_def then_do_def)
  moreover have "used ?st' = used st \<union> set ?idxs" by simp
  ultimately show "\<exists>st'. annotate_phrase tol rows st error = Inr (Direct ?idxs, st')
              \<and> ?idxs \<noteq> [] \<and> used st' = used st \<union> set ?idxs"
    using ne by blast
qed

theorem direct_match_precedence_witness:
  "(\<exists>st'. annotate_phrase 2
            [mk_word ''The'' 10 0 1, mk_word ''quick'' 10 1 2, mk_word ''brown'' 10 2 3,
             mk_word ''fox'' 40 3 4]
            \<lparr> used = {}, highlights = [] \<rparr> ''quick brown''
          = Inr (Direct (direct_scan 4 (length ''quick brown'') (used \<lparr> used = {}, highlights = [] \<rparr>) 0 0
                  (map content [mk_word ''The'' 10 0 1, mk_word ''quick'' 10 1 2,
                                mk_word ''brown'' 10 2 3, mk_word ''fox'' 40 3 4])), st'))
   \<and> direct_scan 4 (length ''quick brown'') (used \<lparr> used = {}, highlights = [] \<rparr>) 0 0
        (map content [mk_word ''The'' 10 0 1, mk_word ''quick'' 10 1 2,
                      mk_word ''brown'' 10 2 3, mk_word ''fox'' 40 3 4]) = [1, 2]"
proof -
  let ?rows = "[mk_word ''The'' 10 0 1, mk_word ''quick'' 10 1 2, mk_word ''brown'' 10 2 3,
                mk_word ''fox'' 40 3 4]"
  let ?st = "\<lparr> used = {}, highlights = [] \<rparr>"
  have h1: "''quick brown'' \<noteq> []" by simp
  have h2: "find_sub ''quick brown'' (all_words_string ?rows) = Some 4" by code_simp
  have h3: "wf_rows ?rows" by code_simp
  have "1 < length ?rows \<and> 1 \<notin> used ?st
        \<and> span_overlaps (map content ?rows) 1 4 (4 + length ''quick brown'')"
    by code_simp
  then have h4: "\<exists>i<length ?rows. i \<notin> used ?st
        \<and> span_overlaps (map content ?rows) i 4 (4 + length ''quick brown'')"
    by blast
  have e: "direct_scan 4 (length ''quick brown'') (used ?st) 0 0 (map content ?rows) = [1, 2]"
    by code_simp
  from direct_match_precedence[OF h1 h2 h3, of ?st 2] h4 e show ?thesis by blast
qed


text \<open>
  C2, counterexample. The window \<open>a a\<close> with word 0 used: the phrase \<open>a\<close> is a substring
  of the joined string, and it is settled by Step 3, which gives it word 1. The state
  arises in the pass over the phrases \<open>a\<close>, \<open>a\<close>.
\<close>

theorem used_words_send_substring_to_step3:
  "find_sub ''a'' (all_words_string [mk_word ''a'' 0 0 1, mk_word ''a'' 0 1 2]) = Some 0
   \<and> annotate_phrase 2 [mk_word ''a'' 0 0 1, mk_word ''a'' 0 1 2]
        \<lparr> used = {0}, highlights = [] \<rparr> ''a''
      = Inr (Partial_accepted \<lparr> sequence = [1], match_text = ''a'', is_full_match = True,
                cand_length = 1, sub_error = ''a'', original_error = ''a'' \<rparr>,
             \<lparr> used = {0, 1}, highlights = [([0, 0, 5, 5], ''Error Phrase: a'')] \<rparr>)
   \<and> annotate_paragraph 2 [mk_word ''a'' 0 0 1, mk_word ''a'' 0 1 2] [''a'', ''a'']
      = Inr ([Direct [0],
              Partial_accepted \<lparr> sequence = [1], match_text = ''a'', is_full_match = True,
                cand_length = 1, sub_error = ''a'', original_error = ''a'' \<rparr>],
             \<lparr> used = {0, 1},
               highlights = [([0, 0, 5, 5], ''Error Phrase: a''), ([0, 0, 5, 5], ''Error Phrase: a'')] \<rparr>)"
  by code_simp

end
